theory Spec2Isabelle
  imports Complex_Main "HOL-Library.Word" "HOL-Library.Multiset"
begin

unbundle bit_operations_syntax

section \<open>Embedding backward pass and row renormalisation (ATen/native/cuda/Embedding.cu)\<close>

text \<open>
  The theory embeds the three CUDA kernels of \<^verbatim>\<open>Embedding.cu\<close> and their two host entry
  points. Conventions of the embedding:

  \<^item> \<^verbatim>\<open>scalar_t\<close> and \<^verbatim>\<open>accscalar_t\<close> are the reals: arithmetic is exact, the casts between
    the two are the identity, and rounding and overflow of floating point are not modelled.
  \<^item> \<^verbatim>\<open>int64_t\<close> values are integers; every narrowing to the 32-bit \<^verbatim>\<open>int\<close> that the source
    performs is written out as \<open>int32\<close>, which wraps.
  \<^item> Thread and block coordinates, loop counters and element counts are naturals.
  \<^item> Device memory is a list; a kernel takes the buffer and returns the updated one.
  \<^item> A launch runs its threads one after another, block by block; the phases that a
    \<^verbatim>\<open>__syncthreads()\<close> barrier separates are run one after another for the whole block.
  \<^item> An access outside a buffer is undefined behaviour in the source. The lists of the
    model do not fail there; the theorems assume index lists within the table.
\<close>

subsection \<open>Integers and launch arithmetic\<close>

definition int32 :: "int \<Rightarrow> int" where
  "int32 x = signed_take_bit 31 x"

definition WARP_SIZE :: nat where
  "WARP_SIZE = 32"

definition BLOCKDIMY :: nat where
  "BLOCKDIMY = 32"

text \<open>\<^verbatim>\<open>THCCeilDiv\<close> (THC's rounding-up division, used for the grid sizes).\<close>

definition THCCeilDiv :: "nat \<Rightarrow> nat \<Rightarrow> nat" where
  "THCCeilDiv a b = (a + b - 1) div b"

text \<open>
  \<^verbatim>\<open>for (i = start; i < n; i += step)\<close> over a state. Every launch has block dimensions of
  at least one; the guard \<open>0 < step\<close> only makes the function total.
\<close>

function for_loop :: "nat \<Rightarrow> nat \<Rightarrow> nat \<Rightarrow> (nat \<Rightarrow> 's \<Rightarrow> 's) \<Rightarrow> 's \<Rightarrow> 's" where
  "for_loop i n step body s =
     (if i < n \<and> 0 < step then for_loop (i + step) n step body (body i s) else s)"
  by pat_completeness auto
termination
  by (relation "measure (\<lambda>(i, n, step, body, s). n - i)") auto

declare for_loop.simps [simp del]

text \<open>The threads of one block, and the blocks and threads of a two-dimensional launch.\<close>

definition block_threads :: "nat \<times> nat \<Rightarrow> (nat \<times> nat) list" where
  "block_threads blockDim =
     map (\<lambda>(ty, tx). (tx, ty)) (List.product [0..<snd blockDim] [0..<fst blockDim])"

definition launch_threads :: "nat \<times> nat \<Rightarrow> nat \<times> nat \<Rightarrow> ((nat \<times> nat) \<times> (nat \<times> nat)) list" where
  "launch_threads gridDim blockDim =
     List.product (List.product [0..<fst gridDim] [0..<snd gridDim]) (block_threads blockDim)"

subsection \<open>The Thrust primitives\<close>

text \<open>
  Modelled from the spec: \<^verbatim>\<open>thrust::inclusive_scan_by_key\<close>, the external scan primitive
  (spec section 6). Within a run of consecutive equal keys the output is the running
  combination of the values; a key that differs from its predecessor starts afresh.
\<close>

fun scan_from :: "('k \<Rightarrow> 'k \<Rightarrow> bool) \<Rightarrow> ('v \<Rightarrow> 'v \<Rightarrow> 'v) \<Rightarrow> 'k \<Rightarrow> 'v \<Rightarrow> 'k list \<Rightarrow> 'v list \<Rightarrow> 'v list" where
  "scan_from eq f kp a (k # ks) (v # vs) =
     (let a' = (if eq kp k then f a v else v) in a' # scan_from eq f k a' ks vs)"
| "scan_from eq f kp a _ _ = []"

fun inclusive_scan_by_key :: "('k \<Rightarrow> 'k \<Rightarrow> bool) \<Rightarrow> ('v \<Rightarrow> 'v \<Rightarrow> 'v) \<Rightarrow> 'k list \<Rightarrow> 'v list \<Rightarrow> 'v list" where
  "inclusive_scan_by_key eq f (k # ks) (v # vs) = v # scan_from eq f k v ks vs"
| "inclusive_scan_by_key eq f _ _ = []"

text \<open>
  Modelled from the spec: \<^verbatim>\<open>thrust::unique_copy\<close>, "parallel unique (adjacent-duplicate
  removal)": of every run of consecutive equal elements the first is kept.
\<close>

definition unique_copy :: "'a list \<Rightarrow> 'a list" where
  "unique_copy xs = remdups_adj xs"

text \<open>
  \<^verbatim>\<open>thrust::sort_by_key\<close> is a parameter of the model, since the source asks for no
  stability and the order of equal keys is the library's choice. Its contract (spec
  section 6): the keys come back ascending, and the key-value pairs are the same pairs.
\<close>

type_synonym sorter = "int list \<Rightarrow> int list \<Rightarrow> int list \<times> int list"

definition sort_by_key_contract :: "int list \<Rightarrow> int list \<Rightarrow> int list \<times> int list \<Rightarrow> bool" where
  "sort_by_key_contract keys vals r =
     (sorted (fst r) \<and> length (fst r) = length (snd r) \<and>
      mset (zip (fst r) (snd r)) = mset (zip keys vals))"

text \<open>One sorter that meets the contract: the stable insertion sort by key.\<close>

definition stable_sort_by_key :: sorter where
  "stable_sort_by_key keys vals =
     (let ps = sort_key fst (zip keys vals) in (map fst ps, map snd ps))"

subsection \<open>Accumulator values and the C library's \<^verbatim>\<open>pow\<close>\<close>

text \<open>
  The norm computation of \<^verbatim>\<open>renorm_kernel\<close> can leave the finite numbers: \<^verbatim>\<open>std::pow\<close>
  of a negative base and a fractional exponent is a NaN, of a zero base and a negative
  exponent it is infinite, and \<^verbatim>\<open>1.0 / norm_type\<close> is infinite for \<^verbatim>\<open>norm_type == 0\<close>. An
  accumulator value is therefore a real, \<open>+\<infinity>\<close> or NaN. Zero is taken as \<open>+0\<close>, so \<open>-\<infinity>\<close>
  does not arise in the kernel.
\<close>

datatype acc = Fin real | PInf | NaN

fun acc_add :: "acc \<Rightarrow> acc \<Rightarrow> acc" where
  "acc_add (Fin a) (Fin b) = Fin (a + b)"
| "acc_add (Fin a) PInf = PInf"
| "acc_add PInf (Fin b) = PInf"
| "acc_add PInf PInf = PInf"
| "acc_add NaN b = NaN"
| "acc_add (Fin a) NaN = NaN"
| "acc_add PInf NaN = NaN"

text \<open>\<^verbatim>\<open>1.0 / norm_type\<close>.\<close>

definition acc_inverse :: "real \<Rightarrow> acc" where
  "acc_inverse p = (if p = 0 then PInf else Fin (1 / p))"

text \<open>
  Modelled from the spec: \<^verbatim>\<open>std::pow\<close> of the C library (the spec's "generic power
  computation"), by the cases of the C standard, without rounding. \<open>pow_fin\<close> is the case
  of two finite arguments.
\<close>

definition pow_fin :: "real \<Rightarrow> real \<Rightarrow> acc" where
  "pow_fin x y =
     (if y = 0 then Fin 1
      else if 0 < x then Fin (x powr y)
      else if x = 0 then (if 0 < y then Fin 0 else PInf)
      else if y \<in> \<int> then Fin (if even \<lfloor>y\<rfloor> then \<bar>x\<bar> powr y else - (\<bar>x\<bar> powr y))
      else NaN)"

fun std_pow :: "acc \<Rightarrow> acc \<Rightarrow> acc" where
  "std_pow (Fin x) (Fin y) = pow_fin x y"
| "std_pow (Fin x) PInf = (if \<bar>x\<bar> < 1 then Fin 0 else if \<bar>x\<bar> = 1 then Fin 1 else PInf)"
| "std_pow (Fin x) NaN = (if x = 1 then Fin 1 else NaN)"
| "std_pow PInf (Fin y) = (if y = 0 then Fin 1 else if 0 < y then PInf else Fin 0)"
| "std_pow PInf PInf = PInf"
| "std_pow PInf NaN = NaN"
| "std_pow NaN (Fin y) = (if y = 0 then Fin 1 else NaN)"
| "std_pow NaN _ = NaN"

subsection \<open>\<^verbatim>\<open>renorm_kernel\<close> (lines 163-202)\<close>

text \<open>The summand of one element (lines 177-184).\<close>

definition norm_term :: "real \<Rightarrow> real \<Rightarrow> acc" where
  "norm_term norm_type x =
     (if norm_type = 1 then Fin \<bar>x\<bar>
      else if norm_type = 2 then Fin (x * x)
      else std_pow (Fin x) (Fin norm_type))"

text \<open>
  Modelled from the spec: \<^verbatim>\<open>reduceBlock\<close> with \<^verbatim>\<open>ReduceAdd\<close> (THC), the "tree/block
  reduction" that adds the lane-local partial sums of the block.
\<close>

definition reduceBlock :: "acc list \<Rightarrow> acc" where
  "reduceBlock vs = foldl acc_add (Fin 0) vs"

text \<open>The additive guard of line 197.\<close>

definition norm_eps :: real where
  "norm_eps = 1 / 10 ^ 7"

text \<open>Lines 198-200 for the whole block: thread \<open>tid\<close> scales the elements \<open>tid, tid + blockDim.x, ...\<close>\<close>

definition rescale_row :: "nat \<Rightarrow> nat \<Rightarrow> int \<Rightarrow> real \<Rightarrow> real list \<Rightarrow> real list" where
  "rescale_row blockDim_x dim' base_index factor weights =
     foldl (\<lambda>w tid. for_loop tid dim' blockDim_x
              (\<lambda>i w. w[nat (base_index + int i) := w ! nat (base_index + int i) * factor]) w)
       weights [0..<blockDim_x]"

text \<open>
  The norm that the block leaves in \<^verbatim>\<open>sdata[0]\<close> (lines 173-193): every thread adds up the
  terms of its elements, the block reduces the partial sums, thread 0 takes the root.
\<close>

definition block_norm :: "nat \<Rightarrow> nat \<Rightarrow> int \<Rightarrow> real \<Rightarrow> real list \<Rightarrow> acc" where
  "block_norm blockDim_x dim' base_index norm_type weights =
     (let partial = (\<lambda>tid. for_loop tid dim' blockDim_x
            (\<lambda>i v. acc_add v (norm_term norm_type (weights ! nat (base_index + int i)))) (Fin 0));
          v = reduceBlock (map partial [0..<blockDim_x])
      in std_pow v (acc_inverse norm_type))"

text \<open>
  One block of the kernel. \<^verbatim>\<open>sdata[0] > max_norm\<close> is false for a NaN and true for \<open>+\<infinity>\<close>,
  where \<^verbatim>\<open>max_norm / (sdata[0] + 1e-7)\<close> is zero. (For a finite norm \<open>n\<close> the quotient is
  taken in the reals; \<open>n + 1e-7 = 0\<close> would need a negative norm above \<open>max_norm\<close>.)

  The factor and the products are exact here. In the source the quotient is a \<^verbatim>\<open>double\<close> cast
  to \<^verbatim>\<open>scalar_t\<close> and every product is rounded to \<^verbatim>\<open>scalar_t\<close>; what the kernel measures on a row
  that it has rescaled is therefore not determined by this definition, which is exact only
  where no operation rounds (small integers, a row left as it is).
\<close>

definition renorm_kernel_block ::
    "real list \<Rightarrow> int list \<Rightarrow> real \<Rightarrow> real \<Rightarrow> nat \<Rightarrow> nat \<Rightarrow> nat \<Rightarrow> real list" where
  "renorm_kernel_block weights indices max_norm norm_type dim' blockDim_x blockIdx_x =
     (let base_index = int32 (indices ! blockIdx_x * int dim')
      in case block_norm blockDim_x dim' base_index norm_type weights of
           Fin n \<Rightarrow>
             if n > max_norm
             then rescale_row blockDim_x dim' base_index (max_norm / (n + norm_eps)) weights
             else weights
         | PInf \<Rightarrow> rescale_row blockDim_x dim' base_index 0 weights
         | NaN \<Rightarrow> weights)"

text \<open>
  The launch, block after block. Blocks of different rows do not touch each other's
  elements, and their order does not matter. For an index list with duplicates that are
  not adjacent, which \<^verbatim>\<open>unique_copy\<close> keeps, the source's blocks of one row race (the FIXME of
  lines 344-346); the fold is then one of the interleavings only.
\<close>

definition renorm_kernel ::
    "nat \<Rightarrow> nat \<Rightarrow> real list \<Rightarrow> int list \<Rightarrow> real \<Rightarrow> real \<Rightarrow> nat \<Rightarrow> real list" where
  "renorm_kernel gridDim_x blockDim_x weights indices max_norm norm_type dim' =
     foldl (\<lambda>w bx. renorm_kernel_block w indices max_norm norm_type dim' blockDim_x bx)
       weights [0..<gridDim_x]"

subsection \<open>\<^verbatim>\<open>embedding_backward_kernel\<close>, the Sort-Grouped accumulator (lines 101-160)\<close>

text \<open>
  The gradient-weight table together with a record of the stores made to it: every
  assignment to \<^verbatim>\<open>grad_weight[...]\<close> (line 153) puts its address in front of \<open>gw_writes\<close>. The
  record is not part of the program; it is what a claim about the number of global
  writes is stated on.
\<close>

record gw_state =
  gw_data :: "real list"
  gw_writes :: "nat list"

definition store :: "gw_state \<Rightarrow> nat \<Rightarrow> real \<Rightarrow> gw_state" where
  "store st a v = \<lparr>gw_data = (gw_data st)[a := v], gw_writes = a # gw_writes st\<rparr>"

definition SZ :: nat where
  "SZ = 4"

text \<open>Line 130: the scale of the member at sorted position \<open>idx\<close>; \<open>None\<close> is the null pointer.\<close>

definition position_scale :: "int list option \<Rightarrow> nat \<Rightarrow> real" where
  "position_scale count' idx = (case count' of Some c \<Rightarrow> 1 / real_of_int (c ! idx) | None \<Rightarrow> 1)"

text \<open>
  One pass of the \<^verbatim>\<open>do\<close> body for the run member at sorted position \<open>idx\<close> (lines 127-155).
  The register arrays \<^verbatim>\<open>gradient[SZ]\<close> and \<^verbatim>\<open>weight[SZ]\<close> are functions of \<open>ii\<close>; a slot that the
  guard \<^verbatim>\<open>feature_dim < stride\<close> leaves unassigned is \<open>None\<close>.
\<close>

definition run_member ::
    "int list \<Rightarrow> int list \<Rightarrow> real list \<Rightarrow> int list option \<Rightarrow> int \<Rightarrow> nat \<Rightarrow> nat \<Rightarrow> gw_state \<Rightarrow> gw_state" where
  "run_member input indices grad_output count' stride start_feature idx st =
     (let weight_row = int32 (int32 (input ! idx) * stride);
          grad_row = int32 (int32 (indices ! idx) * stride);
          scale = position_scale count' idx;
          feature_dim = (\<lambda>ii. int (start_feature + ii * WARP_SIZE));
          gradient = (\<lambda>ii. if feature_dim ii < stride
                             then Some (grad_output ! nat (grad_row + feature_dim ii)) else None);
          weight = (\<lambda>ii. if feature_dim ii < stride
                           then Some (gw_data st ! nat (weight_row + feature_dim ii)) else None);
          weight' = (\<lambda>ii. case (weight ii, gradient ii) of
                              (Some w, Some g) \<Rightarrow> Some (w + g * scale) | _ \<Rightarrow> None)
      in foldl (\<lambda>s ii. if feature_dim ii < stride
                        then (case weight' ii of
                                Some w \<Rightarrow> store s (nat (weight_row + feature_dim ii)) w
                              | None \<Rightarrow> s)
                        else s) st [0..<SZ])"

text \<open>The \<^verbatim>\<open>do ... while\<close> loop of lines 126-158.\<close>

function run_loop ::
    "int list \<Rightarrow> int list \<Rightarrow> real list \<Rightarrow> int list option \<Rightarrow> nat \<Rightarrow> int \<Rightarrow> nat \<Rightarrow> nat \<Rightarrow> gw_state \<Rightarrow> gw_state" where
  "run_loop input indices grad_output count' numel stride start_feature idx st =
     (let st' = run_member input indices grad_output count' stride start_feature idx st;
          idx' = idx + 1
      in if idx' < numel \<and> input ! idx' = input ! (idx' - 1)
         then run_loop input indices grad_output count' numel stride start_feature idx' st'
         else st')"
  by pat_completeness auto
termination
  by (relation "measure (\<lambda>(input, indices, grad_output, count', numel, stride, sf, idx, st). numel - idx)")
     auto

declare run_loop.simps [simp del]

text \<open>One thread of the kernel; \<open>padding_idx\<close> is the kernel's \<^verbatim>\<open>int\<close> parameter.\<close>

definition embedding_backward_kernel_thread ::
    "int list \<Rightarrow> int list \<Rightarrow> real list \<Rightarrow> int list option \<Rightarrow> nat \<Rightarrow> int \<Rightarrow> int \<Rightarrow>
     nat \<times> nat \<Rightarrow> (nat \<times> nat) \<times> (nat \<times> nat) \<Rightarrow> gw_state \<Rightarrow> gw_state" where
  "embedding_backward_kernel_thread input indices grad_output count' numel stride padding_idx
       blockDim bt st =
     (let blockIdx = fst bt; threadIdx = snd bt;
          idx = fst blockIdx * 4 + snd threadIdx
      in if idx < numel \<and> (idx = 0 \<or> input ! idx \<noteq> input ! (idx - 1)) \<and> input ! idx \<noteq> padding_idx
         then run_loop input indices grad_output count' numel stride
                (fst threadIdx + snd blockIdx * fst blockDim * SZ) idx st
         else st)"

definition embedding_backward_kernel ::
    "nat \<times> nat \<Rightarrow> nat \<times> nat \<Rightarrow> int list \<Rightarrow> int list \<Rightarrow> real list \<Rightarrow> gw_state \<Rightarrow>
     int list option \<Rightarrow> nat \<Rightarrow> int \<Rightarrow> int \<Rightarrow> gw_state" where
  "embedding_backward_kernel gridDim blockDim input indices grad_output grad_weight count'
       numel stride padding_idx =
     foldl (\<lambda>st bt. embedding_backward_kernel_thread input indices grad_output count' numel
                       stride padding_idx blockDim bt st)
       grad_weight (launch_threads gridDim blockDim)"

text \<open>
  The frequency counts of lines 273-305: a forward scan by key that adds the constant 1,
  then the scan by key with \<open>max\<close> over the reversed keys and the reversed counts, written
  back in place through the reverse iterators.
\<close>

definition frequency_counts :: "int list \<Rightarrow> int list" where
  "frequency_counts sorted_indices =
     (let count1 = inclusive_scan_by_key (=) (+) sorted_indices
                     (replicate (length sorted_indices) (1::int))
      in rev (inclusive_scan_by_key (=) max (rev sorted_indices) (rev count1)))"

text \<open>Lines 249-323: sort, count, launch.\<close>

definition sort_grouped_path ::
    "sorter \<Rightarrow> real list \<Rightarrow> int list \<Rightarrow> nat \<Rightarrow> nat \<Rightarrow> int \<Rightarrow> bool \<Rightarrow> gw_state" where
  "sort_grouped_path sort_by_key grad indices num_weights stride padding_idx scale_grad_by_freq =
     (let num_indices = length indices;
          sorted_orig = sort_by_key indices (map int [0..<num_indices]);
          sorted_indices = fst sorted_orig;
          orig_indices = snd sorted_orig;
          count' = (if scale_grad_by_freq then Some (frequency_counts sorted_indices) else None);
          grad_weight = \<lparr>gw_data = replicate (num_weights * stride) 0, gw_writes = []\<rparr>
      in embedding_backward_kernel
           (THCCeilDiv num_indices 4, THCCeilDiv stride 128) (32, 4)
           sorted_indices orig_indices grad grad_weight count' num_indices (int stride)
           (int32 padding_idx))"

subsection \<open>\<^verbatim>\<open>embedding_backward_feature_kernel\<close>, the Direct Lane-Reduction accumulator (lines 23-98)\<close>

text \<open>
  Modelled from the spec: \<^verbatim>\<open>WARP_BALLOT\<close> (THC) and the intrinsic \<^verbatim>\<open>__ffs\<close>, the "group-wide
  vote" and the "population-bit-scan to find the lowest set bit". Bit \<open>l\<close> of the ballot is
  lane \<open>l\<close>'s predicate; \<open>ffs\<close> is the position of the lowest set bit counted from 1, and 0
  for the empty mask.
\<close>

definition WARP_BALLOT :: "(nat \<Rightarrow> bool) \<Rightarrow> 32 word" where
  "WARP_BALLOT p = horner_sum of_bool 2 (map p [0..<32])"

definition ffs :: "32 word \<Rightarrow> int" where
  "ffs m = (case find (bit m) [0..<32] of None \<Rightarrow> 0 | Some i \<Rightarrow> int i + 1)"

lemma word32_nonzero_bit:
  assumes "(m :: 32 word) \<noteq> 0"
  shows "\<exists>i<32. bit m i"
proof -
  from assms obtain i where i: "bit m i" by (auto simp: bit_eq_iff)
  then have "i < 32" using bit_imp_le_length [of m i] by simp
  with i show ?thesis by blast
qed

lemma ffs_props:
  assumes "(m :: 32 word) \<noteq> 0"
  shows "\<exists>p<32. ffs m = int p + 1 \<and> bit m p \<and> (\<forall>q<p. \<not> bit m q)"
proof -
  from word32_nonzero_bit [OF assms] obtain i where i: "i < 32" "bit m i" by blast
  then have "find (bit m) [0..<32] \<noteq> None"
    by (auto simp: find_None_iff simp del: upt_rec_numeral)
  then obtain p where p: "find (bit m) [0..<32] = Some p" by blast
  then obtain k where k: "k < length [0..<32::nat]" "bit m ([0..<32] ! k)" "p = [0..<32] ! k"
      "\<forall>j<k. \<not> bit m ([0..<32] ! j)"
    unfolding find_Some_iff by blast
  then have "p < 32" "bit m p" "\<forall>q<p. \<not> bit m q" by (auto simp del: upt_rec_numeral)
  with p show ?thesis by (auto simp: ffs_def)
qed

lemma bit_clear_lowest:
  assumes "p < 32" "bit (m :: 32 word) p"
  shows "bit (m XOR 2 ^ p) i \<longleftrightarrow> bit m i \<and> i \<noteq> p"
  using assms by (auto simp: bit_xor_iff bit_exp_iff)

lemma mask_loop_decreases:
  assumes "(m :: 32 word) \<noteq> 0"
  shows "length (filter (bit (m XOR 2 ^ nat (ffs m - 1))) [0..<32])
       < length (filter (bit m) [0..<32])"
proof -
  from ffs_props [OF assms] obtain p where p: "p < 32" "ffs m = int p + 1" "bit m p" by blast
  have "filter (bit (m XOR 2 ^ p)) [0..<32] = filter (\<lambda>i. i \<noteq> p) (filter (bit m) [0..<32])"
  proof -
    have "bit (m XOR 2 ^ p) = (\<lambda>i. bit m i \<and> i \<noteq> p)"
      by (rule ext) (auto simp: bit_clear_lowest [OF p(1,3)])
    then show ?thesis by (simp del: upt_rec_numeral)
  qed
  moreover have "length (filter (\<lambda>i. i \<noteq> p) (filter (bit m) [0..<32]))
      < length (filter (bit m) [0..<32])"
    by (rule length_filter_less [of p]) (use p in \<open>auto simp del: upt_rec_numeral\<close>)
  ultimately show ?thesis using p by simp
qed

text \<open>
  The leader's \<^verbatim>\<open>while(matchmask)\<close> loop (lines 86-91) on the block's accumulators:
  \<^verbatim>\<open>my_s[threadIdx.x]\<close> is \<open>smem[my_s + tx]\<close>.
\<close>

function accumulate_peers :: "nat \<Rightarrow> nat \<Rightarrow> 32 word \<Rightarrow> real list \<Rightarrow> real list" where
  "accumulate_peers my_s tx matchmask sm =
     (if matchmask = 0 then sm
      else let first_remaining_peer = ffs matchmask - 1;
               sm' = sm[my_s + tx :=
                        sm ! (my_s + tx) + sm ! (tx + WARP_SIZE * nat first_remaining_peer)]
           in accumulate_peers my_s tx (matchmask XOR push_bit (nat first_remaining_peer) 1) sm')"
  by pat_completeness auto
termination
  by (relation "measure (\<lambda>(my_s, tx, m, sm). length (filter (bit m) [0..<32]))")
     (auto simp del: upt_rec_numeral intro: mask_loop_decreases)

declare accumulate_peers.simps [simp del]

text \<open>
  The state of one block: the two shared arrays carved out of \<^verbatim>\<open>buf\<close>, the global table, and
  a record of every subscript applied to \<^verbatim>\<open>indices_batch\<close> (it is not part of the program; a
  claim about the bounds of these accesses is stated on it).
\<close>

record block_state =
  smem :: "real list"
  indices_batch :: "int list"
  subscripts :: "nat list"
  table :: "real list"

text \<open>Lines 46-48: the thread's share of the cooperative load.\<close>

definition load_index :: "int list \<Rightarrow> nat \<Rightarrow> nat \<times> nat \<Rightarrow> nat \<Rightarrow> nat \<times> nat \<Rightarrow> block_state \<Rightarrow> block_state" where
  "load_index indices n blockDim batch_start threadIdx st =
     (let tid = fst threadIdx + snd threadIdx * fst blockDim
      in if batch_start + tid < n
         then st\<lparr>indices_batch := (indices_batch st)[tid := int32 (indices ! (batch_start + tid))],
                 subscripts := tid # subscripts st\<rparr>
         else st)"

text \<open>Lines 59-64, up to the second barrier: read the target row, stage the gradient.\<close>

definition stage_grad ::
    "real list \<Rightarrow> nat \<Rightarrow> int \<Rightarrow> int \<Rightarrow> nat \<Rightarrow> nat \<times> nat \<Rightarrow> nat \<Rightarrow> nat \<Rightarrow> nat \<times> nat \<Rightarrow>
     block_state \<Rightarrow> block_state" where
  "stage_grad grad n stride padding_idx blockIdx_x blockDim batch_start chunk_start threadIdx st =
     (let s = int32 stride;
          f = int (fst threadIdx + blockIdx_x * fst blockDim);
          src_row = chunk_start + snd threadIdx;
          dst_row = indices_batch st ! (src_row - batch_start);
          st1 = st\<lparr>subscripts := (src_row - batch_start) # subscripts st\<rparr>
      in if src_row < n \<and> f < s \<and> dst_row \<noteq> padding_idx
         then st1\<lparr>smem := (smem st1)[WARP_SIZE * snd threadIdx + fst threadIdx :=
                              grad ! nat (int src_row * stride + f)]\<rparr>
         else st1)"

text \<open>
  Lines 57-60 and 73-95, after the second barrier. \<open>dst_row\<close> is the register read at line
  60; \<^verbatim>\<open>indices_batch\<close> has not changed since.
\<close>

definition lead_accumulate ::
    "nat \<Rightarrow> int \<Rightarrow> int \<Rightarrow> nat \<Rightarrow> nat \<times> nat \<Rightarrow> nat \<Rightarrow> nat \<Rightarrow> nat \<times> nat \<Rightarrow>
     block_state \<Rightarrow> block_state" where
  "lead_accumulate n stride padding_idx blockIdx_x blockDim batch_start chunk_start threadIdx st =
     (let s = int32 stride;
          f = int (fst threadIdx + blockIdx_x * fst blockDim);
          n_this_chunk = (if n - chunk_start < snd blockDim then n - chunk_start else snd blockDim);
          src_row = chunk_start + snd threadIdx;
          dst_row = indices_batch st ! (src_row - batch_start)
      in if dst_row \<noteq> padding_idx \<and> src_row < n
         then
           let match_found_this_thread = (\<lambda>lane.
                 if lane \<ge> n_this_chunk then False
                 else dst_row = indices_batch st ! (chunk_start - batch_start + lane));
               st1 = st\<lparr>subscripts := (chunk_start - batch_start + fst threadIdx) # subscripts st\<rparr>;
               matchmask = WARP_BALLOT match_found_this_thread;
               first_remaining_peer = ffs matchmask - 1
           in if int (snd threadIdx) = first_remaining_peer
              then
                let my_s = WARP_SIZE * snd threadIdx;
                    st2 = st1\<lparr>smem := accumulate_peers my_s (fst threadIdx)
                                  (matchmask XOR push_bit (nat first_remaining_peer) 1) (smem st1)\<rparr>
                in if f < s
                   then st2\<lparr>table := (table st2)[nat (dst_row * stride + f) :=
                                table st2 ! nat (dst_row * stride + f) + smem st2 ! (my_s + fst threadIdx)]\<rparr>
                   else st2
              else st1
         else st)"

text \<open>One block: the batch loop of line 43 around the chunk loop of line 51.\<close>

definition feature_block ::
    "int list \<Rightarrow> real list \<Rightarrow> nat \<Rightarrow> int \<Rightarrow> int \<Rightarrow> nat \<Rightarrow> nat \<times> nat \<Rightarrow> block_state \<Rightarrow> block_state" where
  "feature_block indices grad n stride padding_idx blockIdx_x blockDim st =
     for_loop 0 n (fst blockDim * snd blockDim)
       (\<lambda>batch_start st.
          for_loop batch_start n (snd blockDim)
            (\<lambda>chunk_start st.
               foldl (\<lambda>st t. lead_accumulate n stride padding_idx blockIdx_x blockDim
                                batch_start chunk_start t st)
                 (foldl (\<lambda>st t. stage_grad grad n stride padding_idx blockIdx_x blockDim
                                   batch_start chunk_start t st)
                    st (block_threads blockDim))
                 (block_threads blockDim))
            (foldl (\<lambda>st t. load_index indices n blockDim batch_start t st)
               st (block_threads blockDim)))
       st"

text \<open>
  The launch. Its third parameter sizes the dynamic shared memory; \<open>shared_size\<close> gives
  the number of accumulators and the number of index slots. Block \<open>bx\<close> starts on shared
  memory of unknown content, \<open>shared0 bx\<close>.
\<close>

definition embedding_backward_feature_kernel ::
    "nat \<Rightarrow> nat \<times> nat \<Rightarrow> nat \<times> nat \<Rightarrow> (nat \<Rightarrow> (nat \<Rightarrow> real) \<times> (nat \<Rightarrow> int)) \<Rightarrow>
     int list \<Rightarrow> real list \<Rightarrow> real list \<Rightarrow> nat \<Rightarrow> int \<Rightarrow> int \<Rightarrow> real list \<times> nat list" where
  "embedding_backward_feature_kernel gridDim_x blockDim shared_size shared0 indices grad
       grad_weight n stride padding_idx =
     foldl (\<lambda>gl bx.
              let st = feature_block indices grad n stride padding_idx bx blockDim
                         \<lparr>smem = map (fst (shared0 bx)) [0..<fst shared_size],
                          indices_batch = map (snd (shared0 bx)) [0..<snd shared_size],
                          subscripts = snd gl, table = fst gl\<rparr>
              in (table st, subscripts st))
       (grad_weight, []) [0..<gridDim_x]"

text \<open>Lines 217-246.\<close>

definition direct_path ::
    "(nat \<Rightarrow> (nat \<Rightarrow> real) \<times> (nat \<Rightarrow> int)) \<Rightarrow> real list \<Rightarrow> int list \<Rightarrow> nat \<Rightarrow> nat \<Rightarrow> int \<Rightarrow>
     real list \<times> nat list" where
  "direct_path shared0 grad indices num_weights stride padding_idx =
     embedding_backward_feature_kernel (THCCeilDiv stride WARP_SIZE) (WARP_SIZE, BLOCKDIMY)
       (WARP_SIZE * BLOCKDIMY, WARP_SIZE * BLOCKDIMY) shared0
       indices grad (replicate (num_weights * stride) 0)
       (nat (int32 (int (length indices)))) (int stride) (int32 padding_idx)"

subsection \<open>Tensors and the host entry points (lines 206-368)\<close>

datatype ScalarType = kByte | kChar | kShort | kInt | kLong | kHalf | kFloat | kDouble

datatype device = CPU | CUDA nat

text \<open>
  What the entry points read of a tensor: element type, layout, residency, shape, and the
  elements in row-major order (what \<^verbatim>\<open>contiguous()\<close> lays out).
\<close>

record 'a tensor =
  scalar_type :: ScalarType
  contiguous :: bool
  device_of :: device
  sizes :: "nat list"
  elems :: "'a list"

datatype check_error =
    ScalarTypeMismatch string
  | NotContiguous string
  | NotSameGPU string string
  | DimMismatch string
  | InvalidView string

text \<open>
  Modelled from the spec: the argument checks of \<^verbatim>\<open>ATen/TensorUtils.h\<close>. Each one tests
  one precondition of spec section 6 and, on failure, "names the violated constraint and
  the offending argument".
\<close>

definition checkScalarType :: "string \<Rightarrow> 'a tensor \<Rightarrow> ScalarType \<Rightarrow> check_error option" where
  "checkScalarType name t ty = (if scalar_type t = ty then None else Some (ScalarTypeMismatch name))"

definition checkContiguous :: "string \<Rightarrow> 'a tensor \<Rightarrow> check_error option" where
  "checkContiguous name t = (if contiguous t then None else Some (NotContiguous name))"

definition checkDim :: "string \<Rightarrow> 'a tensor \<Rightarrow> nat \<Rightarrow> check_error option" where
  "checkDim name t d = (if length (sizes t) = d then None else Some (DimMismatch name))"

definition checkSameGPU :: "string \<Rightarrow> 'a tensor \<Rightarrow> string \<Rightarrow> 'b tensor \<Rightarrow> check_error option" where
  "checkSameGPU name1 t1 name2 t2 =
     (case (device_of t1, device_of t2) of
        (CUDA d1, CUDA d2) \<Rightarrow> if d1 = d2 then None else Some (NotSameGPU name1 name2)
      | _ \<Rightarrow> Some (NotSameGPU name1 name2))"

text \<open>The first failing check of a sequence, in order.\<close>

fun first_error :: "check_error option list \<Rightarrow> check_error option" where
  "first_error [] = None"
| "first_error (Some e # cs) = Some e"
| "first_error (None # cs) = first_error cs"

text \<open>Lines 209-213.\<close>

definition embedding_backward_checks :: "real tensor \<Rightarrow> int tensor \<Rightarrow> check_error option" where
  "embedding_backward_checks grad' indices =
     first_error
       [checkScalarType ''indices'' indices kLong,
        checkContiguous ''indices'' indices,
        checkSameGPU ''grad'' grad' ''indices'' indices]"

text \<open>Line 222: the test that selects the accumulator.\<close>

datatype accumulator = Direct | SortGrouped

definition select_accumulator :: "nat \<Rightarrow> bool \<Rightarrow> accumulator" where
  "select_accumulator num_indices scale_grad_by_freq =
     (if num_indices \<le> 768 \<and> \<not> scale_grad_by_freq then Direct else SortGrouped)"

text \<open>
  \<^verbatim>\<open>embedding_backward_cuda\<close>. \<^verbatim>\<open>view\<close> (line 216) fails unless the gradient has
  \<open>num_indices\<close> rows of the size of its last dimension. The result carries the elements of
  the table of shape \<open>num_weights \<times> stride\<close>.
\<close>

definition embedding_backward_cuda ::
    "sorter \<Rightarrow> (nat \<Rightarrow> (nat \<Rightarrow> real) \<times> (nat \<Rightarrow> int)) \<Rightarrow> real tensor \<Rightarrow> int tensor \<Rightarrow> nat \<Rightarrow>
     int \<Rightarrow> bool \<Rightarrow>
     check_error + real tensor" where
  "embedding_backward_cuda sort_by_key shared0 grad' indices num_weights padding_idx
       scale_grad_by_freq =
     (case embedding_backward_checks grad' indices of
        Some e \<Rightarrow> Inl e
      | None \<Rightarrow>
          let num_indices = length (elems indices) in
          if sizes grad' = [] \<or> length (elems grad') \<noteq> num_indices * last (sizes grad')
          then Inl (InvalidView ''grad'')
          else
            let grad = elems grad';
                stride = last (sizes grad');
                grad_weight =
                  (case select_accumulator num_indices scale_grad_by_freq of
                     Direct \<Rightarrow>
                       fst (direct_path shared0 grad (elems indices) num_weights stride padding_idx)
                   | SortGrouped \<Rightarrow>
                       gw_data (sort_grouped_path sort_by_key grad (elems indices) num_weights
                                  stride padding_idx scale_grad_by_freq))
            in Inr \<lparr>scalar_type = scalar_type grad', contiguous = True, device_of = device_of grad',
                    sizes = [num_weights, stride], elems = grad_weight\<rparr>)"

text \<open>Lines 328-333.\<close>

definition embedding_renorm_checks :: "real tensor \<Rightarrow> int tensor \<Rightarrow> check_error option" where
  "embedding_renorm_checks self indices =
     first_error
       [checkContiguous ''self'' self,
        checkContiguous ''indices'' indices,
        checkDim ''self'' self 2,
        checkSameGPU ''self'' self ''indices'' indices]"

text \<open>
  Modelled from the spec: \<^verbatim>\<open>Tensor::data<int64_t>()\<close> (ATen), the typed accessor through which
  line 342 takes the elements of the index list. By spec section 6 the precondition "Index
  List element type is a fixed-width integer" is "enforced at the boundary", and a violation
  is "detected synchronously before any parallel launch": the accessor fails unless the
  element type of the tensor is Long. (In \<^verbatim>\<open>embedding_backward_cuda\<close> the accessor of line 237
  comes after the check of line 211 and cannot fail.)
\<close>

definition data_int64 :: "string \<Rightarrow> 'a tensor \<Rightarrow> check_error option" where
  "data_int64 name t = (if scalar_type t = kLong then None else Some (ScalarTypeMismatch name))"

text \<open>
  \<^verbatim>\<open>embedding_renorm_cuda_\<close> (here without the trailing underscore): the checks of lines
  330-333, the accessor of line 342, then \<^verbatim>\<open>unique_copy\<close> (line 349) and the launch (line
  358); the table comes back with its elements rescaled in place. The row length
  \<^verbatim>\<open>self.stride(0)\<close> of the contiguous two-dimensional table is its second size.
\<close>

definition embedding_renorm_cuda ::
    "real tensor \<Rightarrow> int tensor \<Rightarrow> real \<Rightarrow> real \<Rightarrow> check_error + real tensor" where
  "embedding_renorm_cuda self indices max_norm norm_type =
     (case embedding_renorm_checks self indices of
        Some e \<Rightarrow> Inl e
      | None \<Rightarrow>
          (case data_int64 ''indices'' indices of
             Some e \<Rightarrow> Inl e
           | None \<Rightarrow>
               let unique_indices = unique_copy (elems indices);
                   num_unique_indices = nat (int32 (int (length unique_indices)));
                   dim' = nat (int32 (int (sizes self ! 1)))
               in Inr (self\<lparr>elems := renorm_kernel num_unique_indices 128 (elems self)
                                        unique_indices max_norm norm_type dim'\<rparr>)))"

subsection \<open>What the claims are stated with\<close>

text \<open>
  Inputs within the table and within 32 bits: one gradient row per index, every index a
  row of the table, and the number of elements of the table and of the gradient and the
  padding index within the 32-bit \<^verbatim>\<open>int\<close> in which the kernels hold them (\<^verbatim>\<open>weight_row\<close> and
  \<^verbatim>\<open>grad_row\<close> of lines 128-129, \<^verbatim>\<open>padding_idx\<close> of lines 32 and 104).
\<close>

definition backward_input_ok :: "real list \<Rightarrow> int list \<Rightarrow> nat \<Rightarrow> nat \<Rightarrow> int \<Rightarrow> bool" where
  "backward_input_ok grad indices num_weights stride padding_idx =
     (length grad = length indices * stride \<and>
      list_all (\<lambda>i. 0 \<le> i \<and> i < int num_weights) indices \<and>
      int num_weights * int stride < 2 ^ 31 \<and>
      int (length indices) * int stride < 2 ^ 31 \<and>
      - (2 ^ 31) \<le> padding_idx \<and> padding_idx < 2 ^ 31)"

text \<open>
  Modelled from the spec: "the sum over all positions \<open>i\<close> where \<open>Index[i] == r\<close> of
  \<open>Gradient[i]\<close>", at column \<open>f\<close>.
\<close>

definition row_sum :: "real list \<Rightarrow> int list \<Rightarrow> nat \<Rightarrow> int \<Rightarrow> nat \<Rightarrow> real" where
  "row_sum grad indices stride r f =
     sum_list (map (\<lambda>i. grad ! (i * stride + f))
       (filter (\<lambda>i. indices ! i = r) [0..<length indices]))"

text \<open>
  Modelled from the spec: the p-norm of the glossary, \<open>(\<Sum>|x\<^sub>i|\<^sup>p)\<^sup>1\<^sup>/\<^sup>p\<close>.
\<close>

definition p_norm :: "real \<Rightarrow> real list \<Rightarrow> real" where
  "p_norm p xs = (sum_list (map (\<lambda>x. \<bar>x\<bar> powr p) xs)) powr (1 / p)"

section \<open>Verification\<close>

subsection \<open>Argument checks and dispatch\<close>

lemma first_error_None_iff: "first_error cs = None \<longleftrightarrow> list_all (\<lambda>c. c = None) cs"
  by (induction cs rule: first_error.induct) auto

lemma checkSameGPU_None_iff:
  "checkSameGPU n1 t1 n2 t2 = None \<longleftrightarrow> (\<exists>d. device_of t1 = CUDA d \<and> device_of t2 = CUDA d)"
  by (auto simp: checkSameGPU_def split: device.splits)

lemma embedding_backward_checks_iff:
  "embedding_backward_checks grad' indices \<noteq> None \<longleftrightarrow>
     scalar_type indices \<noteq> kLong \<or> \<not> contiguous indices \<or>
     \<not> (\<exists>d. device_of grad' = CUDA d \<and> device_of indices = CUDA d)"
  by (simp add: embedding_backward_checks_def first_error_None_iff checkSameGPU_None_iff
      checkScalarType_def checkContiguous_def)

lemma embedding_renorm_checks_iff:
  "embedding_renorm_checks self indices \<noteq> None \<longleftrightarrow>
     \<not> contiguous self \<or> \<not> contiguous indices \<or> length (sizes self) \<noteq> 2 \<or>
     \<not> (\<exists>d. device_of self = CUDA d \<and> device_of indices = CUDA d)"
  by (simp add: embedding_renorm_checks_def first_error_None_iff checkSameGPU_None_iff
      checkDim_def checkContiguous_def)

lemma data_int64_None_iff: "data_int64 name t = None \<longleftrightarrow> scalar_type t = kLong"
  by (simp add: data_int64_def)

lemma embedding_renorm_cuda_rejects_iff:
  "(\<exists>e. embedding_renorm_cuda self indices max_norm norm_type = Inl e) \<longleftrightarrow>
     scalar_type indices \<noteq> kLong \<or> \<not> contiguous self \<or> \<not> contiguous indices \<or>
     length (sizes self) \<noteq> 2 \<or>
     \<not> (\<exists>d. device_of self = CUDA d \<and> device_of indices = CUDA d)"
proof (cases "embedding_renorm_checks self indices")
  case (Some e)
  then have "embedding_renorm_checks self indices \<noteq> None" by simp
  with Some show ?thesis
    unfolding embedding_renorm_checks_iff by (auto simp: embedding_renorm_cuda_def)
next
  case None
  then have "\<not> embedding_renorm_checks self indices \<noteq> None" by simp
  then have ok: "contiguous self" "contiguous indices" "length (sizes self) = 2"
      "\<exists>d. device_of self = CUDA d \<and> device_of indices = CUDA d"
    unfolding embedding_renorm_checks_iff by auto
  show ?thesis
  proof (cases "data_int64 ''indices'' indices")
    case (Some e)
    then have "scalar_type indices \<noteq> kLong" using data_int64_None_iff [of "''indices''" indices] by simp
    with Some None show ?thesis by (simp add: embedding_renorm_cuda_def)
  next
    case n: None
    then have "scalar_type indices = kLong" by (simp add: data_int64_None_iff)
    with n None ok show ?thesis by (simp add: embedding_renorm_cuda_def Let_def)
  qed
qed

text \<open>
  Claim C7. Each entry point refuses every violated precondition of its arguments before
  it launches anything, and a refused call returns an error and no table.
  \<^verbatim>\<open>embedding_backward_cuda\<close> refuses an index list that is not of type Long, an index list
  that is not contiguous, and a gradient and index list that are not on one GPU, with the
  error of the first failing check of lines 211-213. \<^verbatim>\<open>embedding_renorm_cuda_\<close> refuses, and
  refuses only, an index list that is not of type Long (the accessor of line 342), a table
  or an index list that is not contiguous, a table whose rank is not 2, and a table and
  index list that are not on one GPU (lines 330-333).
\<close>

theorem C7_boundary_checks:
  "(scalar_type indices \<noteq> kLong \<or> \<not> contiguous indices \<or>
    \<not> (\<exists>d. device_of grad' = CUDA d \<and> device_of indices = CUDA d) \<longrightarrow>
      (\<exists>e. embedding_backward_checks grad' indices = Some e \<and>
           embedding_backward_cuda sort_by_key shared grad' indices num_weights padding_idx
             scale_grad_by_freq = Inl e)) \<and>
   ((\<exists>e. embedding_renorm_cuda self indices2 max_norm norm_type = Inl e) \<longleftrightarrow>
      scalar_type indices2 \<noteq> kLong \<or> \<not> contiguous self \<or> \<not> contiguous indices2 \<or>
      length (sizes self) \<noteq> 2 \<or>
      \<not> (\<exists>d. device_of self = CUDA d \<and> device_of indices2 = CUDA d))"
proof -
  have "\<exists>e. embedding_backward_checks grad' indices = Some e \<and>
           embedding_backward_cuda sort_by_key shared grad' indices num_weights padding_idx
             scale_grad_by_freq = Inl e"
    if "embedding_backward_checks grad' indices \<noteq> None"
  proof -
    from that obtain e where "embedding_backward_checks grad' indices = Some e" by blast
    then show ?thesis by (simp add: embedding_backward_cuda_def)
  qed
  then show ?thesis
    unfolding embedding_backward_checks_iff
    using embedding_renorm_cuda_rejects_iff [of self indices2 max_norm norm_type] by blast
qed

text \<open>
  Witness for C7: an index list of 32-bit integers, contiguous and on the GPU of the other
  argument, is refused by both entry points.
\<close>

theorem C7_boundary_checks_witness:
  "scalar_type \<lparr>scalar_type = kInt, contiguous = True, device_of = CUDA 0, sizes = [1],
                elems = [0::int]\<rparr> \<noteq> kLong \<and>
   (\<exists>e. embedding_backward_cuda stable_sort_by_key (\<lambda>bx. (\<lambda>i. 0, \<lambda>i. 0))
          \<lparr>scalar_type = kFloat, contiguous = True, device_of = CUDA 0, sizes = [1, 1], elems = [1]\<rparr>
          \<lparr>scalar_type = kInt, contiguous = True, device_of = CUDA 0, sizes = [1], elems = [0]\<rparr>
          1 (-1) False = Inl e) \<and>
   (\<exists>e. embedding_renorm_cuda
          \<lparr>scalar_type = kFloat, contiguous = True, device_of = CUDA 0, sizes = [1, 1], elems = [1]\<rparr>
          \<lparr>scalar_type = kInt, contiguous = True, device_of = CUDA 0, sizes = [1], elems = [0]\<rparr>
          1 2 = Inl e)"
proof -
  let ?g = "\<lparr>scalar_type = kFloat, contiguous = True, device_of = CUDA 0, sizes = [1, 1],
             elems = [1::real]\<rparr>"
  let ?i = "\<lparr>scalar_type = kInt, contiguous = True, device_of = CUDA 0, sizes = [1],
             elems = [0::int]\<rparr>"
  have t: "scalar_type ?i \<noteq> kLong" by simp
  from C7_boundary_checks [of ?i ?g stable_sort_by_key "\<lambda>bx. (\<lambda>i. 0, \<lambda>i. 0)" 1 "-1" False ?g ?i 1 2] t
  show ?thesis by blast
qed

text \<open>
  Claim C9, as the code has it (line 222): the Direct Lane-Reduction accumulator is
  selected exactly when there are at most 768 indices and frequency scaling is off, the
  Sort-Grouped accumulator otherwise; a call that passes the checks returns the table of
  the selected accumulator.
\<close>

theorem C9_dispatch:
  "(select_accumulator num_indices scale_grad_by_freq = Direct
      \<longleftrightarrow> num_indices \<le> 768 \<and> \<not> scale_grad_by_freq) \<and>
   (embedding_backward_checks grad' indices = None \<and> sizes grad' \<noteq> [] \<and>
    length (elems grad') = length (elems indices) * last (sizes grad') \<longrightarrow>
    (\<exists>t. embedding_backward_cuda sort_by_key shared0 grad' indices num_weights padding_idx
            scale_grad_by_freq = Inr t \<and>
         elems t =
           (if length (elems indices) \<le> 768 \<and> \<not> scale_grad_by_freq
            then fst (direct_path shared0 (elems grad') (elems indices) num_weights
                        (last (sizes grad')) padding_idx)
            else gw_data (sort_grouped_path sort_by_key (elems grad') (elems indices) num_weights
                            (last (sizes grad')) padding_idx scale_grad_by_freq))))"
  by (auto simp: select_accumulator_def embedding_backward_cuda_def Let_def)

text \<open>Witness for C9: one index, one column, scaling off: the Direct accumulator's table.\<close>

theorem C9_dispatch_witness:
  "select_accumulator 1 False = Direct \<and>
   (\<exists>t. embedding_backward_cuda stable_sort_by_key (\<lambda>bx. (\<lambda>i. 0, \<lambda>i. 0))
           \<lparr>scalar_type = kFloat, contiguous = True, device_of = CUDA 0, sizes = [1, 1],
            elems = [5]\<rparr>
           \<lparr>scalar_type = kLong, contiguous = True, device_of = CUDA 0, sizes = [1],
            elems = [0]\<rparr>
           1 (-1) False = Inr t \<and>
        elems t = fst (direct_path (\<lambda>bx. (\<lambda>i. 0, \<lambda>i. 0)) [5] [0] 1 1 (-1)))"
proof -
  let ?g = "\<lparr>scalar_type = kFloat, contiguous = True, device_of = CUDA 0, sizes = [1, 1],
             elems = [5::real]\<rparr>"
  let ?i = "\<lparr>scalar_type = kLong, contiguous = True, device_of = CUDA 0, sizes = [1],
             elems = [0::int]\<rparr>"
  have c: "embedding_backward_checks ?g ?i = None"
    by (simp add: embedding_backward_checks_def checkScalarType_def checkContiguous_def
        checkSameGPU_def)
  from C9_dispatch [of 1 False ?g ?i stable_sort_by_key "\<lambda>bx. (\<lambda>i. 0, \<lambda>i. 0)" 1 "-1"] c
  show ?thesis by simp
qed

text \<open>
  Counterexample to C9 as stated ("below the threshold of 768"): with exactly 768 indices
  and scaling off the Direct accumulator is selected, and 768 is not below 768.
\<close>

theorem C9_threshold_is_inclusive:
  "select_accumulator 768 False = Direct \<and> \<not> ((768::nat) < 768)"
  by (simp add: select_accumulator_def)

subsection \<open>The norm of \<^verbatim>\<open>renorm_kernel\<close>\<close>

text \<open>
  Claim C6 at the input \<open>p = 3\<close>, \<open>x = -2\<close>: the kernel's summand is \<open>pow(x, p) = -8\<close>, where
  the claim has \<open>|x|^p = 8\<close>. (The branches for \<open>p = 1\<close> and \<open>p = 2\<close> give \<open>|x|\<close> and \<open>x\<^sup>2\<close>.)
\<close>

theorem C6_summand_keeps_sign:
  "norm_term 3 (-2) = Fin (-8) \<and> \<bar>-2 :: real\<bar> powr 3 = 8 \<and>
   norm_term 1 (-2) = Fin 2 \<and> norm_term 2 (-2) = Fin 4"
  by (simp add: norm_term_def pow_fin_def)

subsection \<open>The scans and the frequency counts\<close>

lemma scan_from_length:
  "length ks = length vs \<Longrightarrow> length (scan_from eq f kp a ks vs) = length ks"
  by (induction ks vs arbitrary: kp a rule: list_induct2) (auto simp: Let_def)

lemma scan_length:
  "length ks = length vs \<Longrightarrow> length (inclusive_scan_by_key eq f ks vs) = length ks"
  by (cases ks; cases vs) (auto simp: scan_from_length)

lemma scan_from_snoc:
  "length ks = length vs \<Longrightarrow>
   scan_from eq f kp a (ks @ [k]) (vs @ [v]) =
     (let r = scan_from eq f kp a ks vs
      in r @ [if eq (last (kp # ks)) k then f (last (a # r)) v else v])"
proof (induction ks vs arbitrary: kp a rule: list_induct2)
  case Nil
  then show ?case by simp
next
  case (Cons x xs y ys)
  show ?case
    by (simp add: Cons.IH Let_def scan_from_length [OF Cons.hyps] )
qed

lemma scan_snoc:
  assumes "length ks = length vs"
  shows "inclusive_scan_by_key eq f (ks @ [k]) (vs @ [v]) =
     (let r = inclusive_scan_by_key eq f ks vs
      in r @ [if ks \<noteq> [] \<and> eq (last ks) k then f (last r) v else v])"
proof (cases ks)
  case Nil
  with assms show ?thesis by simp
next
  case (Cons x xs)
  with assms obtain y ys where vs: "vs = y # ys" "length xs = length ys" by (cases vs) auto
  show ?thesis unfolding Cons vs
    by (simp add: scan_from_snoc [OF vs(2)] Let_def)
qed


lemma sorted_snoc_last_neq:
  assumes "sorted (xs @ [x :: 'a :: linorder])" "xs \<noteq> []" "last xs \<noteq> x"
  shows "x \<notin> set xs"
proof
  assume "x \<in> set xs"
  then obtain i where i: "i < length xs" "xs ! i = x" by (auto simp: in_set_conv_nth)
  have "sorted xs" using assms(1) by (simp add: sorted_append)
  then have "xs ! i \<le> xs ! (length xs - 1)"
    using i by (intro sorted_nth_mono) auto
  then have "xs ! i \<le> last xs"
    using assms(2) by (simp add: last_conv_nth)
  moreover have "last xs \<le> x" using assms(1,2) by (simp add: sorted_append)
  ultimately show False using i assms(3) by simp
qed

lemma forward_scan_snoc:
  "inclusive_scan_by_key (=) (+) (xs @ [x]) (replicate (length (xs @ [x])) (1::int)) =
     (let r = inclusive_scan_by_key (=) (+) xs (replicate (length xs) 1)
      in r @ [if xs \<noteq> [] \<and> last xs = x then last r + 1 else 1])"
proof -
  have "replicate (length (xs @ [x])) (1::int) = replicate (length xs) 1 @ [1]"
    by (simp add: replicate_append_same)
  then show ?thesis by (simp add: scan_snoc del: replicate_Suc)
qed

lemma forward_scan_counts:
  "sorted xs \<Longrightarrow> k < length xs \<Longrightarrow>
   inclusive_scan_by_key (=) (+) xs (replicate (length xs) (1::int)) ! k =
     int (count_list (take (Suc k) xs) (xs ! k))"
proof (induction xs arbitrary: k rule: rev_induct)
  case Nil
  then show ?case by simp
next
  case (snoc x xs)
  let ?r = "inclusive_scan_by_key (=) (+) xs (replicate (length xs) (1::int))"
  have len: "length ?r = length xs" by (simp add: scan_length)
  have sxs: "sorted xs" using snoc.prems(1) by (simp add: sorted_append)
  show ?case
  proof (cases "k < length xs")
    case True
    then show ?thesis
      using snoc.IH [OF sxs True] len
      by (simp add: forward_scan_snoc Let_def nth_append del: replicate_Suc length_append)
  next
    case False
    with snoc.prems have k: "k = length xs" by simp
    show ?thesis
    proof (cases "xs \<noteq> [] \<and> last xs = x")
      case True
      then have "?r \<noteq> []" using len by auto
      then have "last ?r = ?r ! (length xs - 1)"
        using len by (simp add: last_conv_nth)
      also have "\<dots> = int (count_list (take (Suc (length xs - 1)) xs) (xs ! (length xs - 1)))"
        using True by (intro snoc.IH [OF sxs]) simp
      also have "\<dots> = int (count_list xs x)"
        using True last_conv_nth [of xs] by auto
      finally show ?thesis using True k len
        by (simp add: forward_scan_snoc Let_def nth_append del: replicate_Suc length_append)
    next
      case False
      then have "x \<notin> set xs"
        using sorted_snoc_last_neq [OF snoc.prems(1)] by (cases "xs = []") auto
      then have "count_list xs x = 0" by (simp add: count_list_0_iff)
      then show ?thesis using False k len
        by (auto simp add: forward_scan_snoc Let_def nth_append simp del: replicate_Suc length_append)
    qed
  qed
qed


lemma backward_scan_Cons:
  assumes "length ks = length cs"
  shows "rev (inclusive_scan_by_key (=) max (rev ks @ [k]) (rev cs @ [c])) =
     (let r = rev (inclusive_scan_by_key (=) max (rev ks) (rev cs))
      in (if ks \<noteq> [] \<and> hd ks = k then max (hd r) c else c) # r)"
proof -
  have "length (rev ks) = length (rev cs)" using assms by simp
  from scan_snoc [OF this, of "(=)" max k c]
  show ?thesis by (simp add: Let_def last_rev hd_rev)
qed

lemma sorted_Cons_hd_neq:
  assumes "sorted (k # ks :: 'a :: linorder list)" "ks \<noteq> []" "hd ks \<noteq> k"
  shows "k \<notin> set ks"
proof
  assume "k \<in> set ks"
  moreover have "sorted ks" "k \<le> hd ks" using assms(1,2) by auto
  moreover have "\<forall>y \<in> set ks. hd ks \<le> y" using \<open>sorted ks\<close> assms(2) by (cases ks) auto
  ultimately show False using assms(3) by force
qed

lemma backward_scan_counts:
  "sorted (pre @ suf) \<Longrightarrow> length cs = length suf \<Longrightarrow>
   (\<forall>j<length suf. cs ! j = int (count_list (pre @ take (Suc j) suf) (suf ! j))) \<Longrightarrow>
   j < length suf \<Longrightarrow>
   rev (inclusive_scan_by_key (=) max (rev suf) (rev cs)) ! j = int (count_list (pre @ suf) (suf ! j))"
proof (induction suf arbitrary: pre cs j)
  case Nil
  then show ?case by simp
next
  case (Cons k ks)
  from Cons.prems(2) obtain c cs' where cs: "cs = c # cs'" "length cs' = length ks"
    by (cases cs) auto
  let ?r = "rev (inclusive_scan_by_key (=) max (rev ks) (rev cs'))"
  have len: "length ?r = length ks" using cs(2) by (simp add: scan_length)
  have tail: "?r ! i = int (count_list (pre @ k # ks) (ks ! i))" if "i < length ks" for i
  proof -
    have "?r ! i = int (count_list ((pre @ [k]) @ ks) (ks ! i))"
    proof (rule Cons.IH [OF _ cs(2) _ that])
      show "sorted ((pre @ [k]) @ ks)" using Cons.prems(1) by simp
      show "\<forall>j<length ks. cs' ! j = int (count_list ((pre @ [k]) @ take (Suc j) ks) (ks ! j))"
        using Cons.prems(3) cs by auto
    qed
    then show ?thesis by simp
  qed
  have c: "c = int (count_list (pre @ [k]) k)"
    using Cons.prems(3) cs by auto
  show ?case
  proof (cases j)
    case 0
    show ?thesis
    proof (cases "ks \<noteq> [] \<and> hd ks = k")
      case True
      then have "hd ?r = ?r ! 0" using len by (cases ?r) auto
      also have "\<dots> = int (count_list (pre @ k # ks) k)"
        using tail [of 0] True by (cases ks) auto
      finally show ?thesis using True 0 c
        by (simp add: cs backward_scan_Cons [OF cs(2) [symmetric]] Let_def)
    next
      case False
      have "sorted (k # ks)" using Cons.prems(1) by (simp add: sorted_append)
      then have "k \<notin> set ks" using sorted_Cons_hd_neq [of k ks] False by (cases "ks = []") auto
      then have "count_list ks k = 0" by (simp add: count_list_0_iff)
      then show ?thesis using False 0 c
        by (auto simp add: cs backward_scan_Cons [OF cs(2) [symmetric]] Let_def)
    qed
  next
    case (Suc i)
    then show ?thesis using tail [of i] Cons.prems(4)
      by (simp add: cs backward_scan_Cons [OF cs(2) [symmetric]] Let_def)
  qed
qed

lemma frequency_counts_nth:
  assumes "sorted xs" "k < length xs"
  shows "frequency_counts xs ! k = int (count_list xs (xs ! k))"
proof -
  let ?c1 = "inclusive_scan_by_key (=) (+) xs (replicate (length xs) (1::int))"
  have "rev (inclusive_scan_by_key (=) max (rev xs) (rev ?c1)) ! k =
      int (count_list ([] @ xs) (xs ! k))"
  proof (rule backward_scan_counts [OF _ _ _ assms(2)])
    show "sorted ([] @ xs)" using assms(1) by simp
    show "length ?c1 = length xs" by (simp add: scan_length)
    show "\<forall>j<length xs. ?c1 ! j = int (count_list ([] @ take (Suc j) xs) (xs ! j))"
      using forward_scan_counts [OF assms(1)] by simp
  qed
  then show ?thesis by (simp add: frequency_counts_def)
qed

lemma frequency_counts_length: "length (frequency_counts xs) = length xs"
  by (simp add: frequency_counts_def scan_length)


text \<open>What the kernels use of the contract of \<^verbatim>\<open>sort_by_key\<close>.\<close>

lemma sort_contract_facts:
  assumes "sort_by_key_contract indices (map int [0..<length indices]) (si, oi)"
  shows "sorted si" "length si = length indices" "length oi = length indices"
    "mset si = mset indices" "mset oi = mset (map int [0..<length indices])"
    "\<And>k. k < length indices \<Longrightarrow>
       0 \<le> oi ! k \<and> nat (oi ! k) < length indices \<and> si ! k = indices ! nat (oi ! k)"
proof -
  let ?n = "length indices"
  from assms have s: "sorted si" and l: "length si = length oi"
    and m: "mset (zip si oi) = mset (zip indices (map int [0..<?n]))"
    by (auto simp: sort_by_key_contract_def)
  show "sorted si" by fact
  from m have "size (mset (zip si oi)) = size (mset (zip indices (map int [0..<?n])))" by simp
  with l show len: "length si = ?n" and len': "length oi = ?n" by auto
  have "mset (map fst (zip si oi)) = mset (map fst (zip indices (map int [0..<?n])))"
    using m by (metis mset_map)
  then show "mset si = mset indices" using l by simp
  have "mset (map snd (zip si oi)) = mset (map snd (zip indices (map int [0..<?n])))"
    using m by (metis mset_map)
  then show "mset oi = mset (map int [0..<?n])" using l by simp
  fix k assume k: "k < ?n"
  then have "(si ! k, oi ! k) \<in> set (zip si oi)"
    using len len' by (auto simp: in_set_zip)
  then have "(si ! k, oi ! k) \<in> set (zip indices (map int [0..<?n]))"
    using m by (metis set_mset_mset)
  then obtain i where "i < ?n" "si ! k = indices ! i" "oi ! k = int i"
    by (fastforce simp: in_set_zip)
  then show "0 \<le> oi ! k \<and> nat (oi ! k) < ?n \<and> si ! k = indices ! nat (oi ! k)" by simp
qed

lemma count_list_mset: "mset xs = mset ys \<Longrightarrow> count_list xs x = count_list ys x"
  by (metis count_mset)

text \<open>
  Claim C4. Let the sort return \<open>sorted_indices\<close> with the permutation \<open>orig_indices\<close>. The
  forward scan numbers the members of each run 1, 2, ...; after the reverse scan with
  \<open>max\<close> position \<open>k\<close> holds the number of occurrences, in the whole index list, of the
  index at original position \<open>orig_indices ! k\<close>, and the kernel's scale there is one over
  that number; without counts the scale is 1.
\<close>

theorem C4_frequency_scale:
  assumes "sort_by_key_contract indices (map int [0..<length indices])
             (sorted_indices, orig_indices)"
    and "k < length indices"
  shows "inclusive_scan_by_key (=) (+) sorted_indices (replicate (length sorted_indices) 1) ! k =
           int (count_list (take (Suc k) sorted_indices) (sorted_indices ! k)) \<and>
         frequency_counts sorted_indices ! k =
           int (count_list indices (indices ! nat (orig_indices ! k))) \<and>
         position_scale (Some (frequency_counts sorted_indices)) k =
           1 / real (count_list indices (indices ! nat (orig_indices ! k))) \<and>
         position_scale None k = 1"
proof -
  note f = sort_contract_facts [OF assms(1)]
  have k: "k < length sorted_indices" using f(2) assms(2) by simp
  have "frequency_counts sorted_indices ! k = int (count_list sorted_indices (sorted_indices ! k))"
    by (rule frequency_counts_nth [OF f(1) k])
  also have "\<dots> = int (count_list indices (indices ! nat (orig_indices ! k)))"
    using f(6) [OF assms(2)] count_list_mset [OF f(4)] by simp
  finally have c: "frequency_counts sorted_indices ! k =
      int (count_list indices (indices ! nat (orig_indices ! k)))" .
  show ?thesis
    using forward_scan_counts [OF f(1) k] c by (simp add: position_scale_def)
qed

text \<open>Witness for C4: the index list 2, 0, 2; the run of 2 has length two.\<close>

theorem C4_frequency_scale_witness:
  "sort_by_key_contract [2, 0, 2] (map int [0..<length [2, 0, 2 :: int]]) ([0, 2, 2], [1, 0, 2]) \<and>
   (1::nat) < length [2, 0, 2 :: int] \<and>
   frequency_counts [0, 2, 2] ! 1 = 2 \<and>
   position_scale (Some (frequency_counts [0, 2, 2])) 1 = 1 / 2"
proof -
  have c: "sort_by_key_contract [2, 0, 2] (map int [0..<length [2, 0, 2 :: int]])
      ([0, 2, 2], [1, 0, 2])"
    by (simp add: sort_by_key_contract_def)
  from C4_frequency_scale [OF c, of 1] c show ?thesis by simp
qed

subsection \<open>The Sort-Grouped kernel\<close>

lemma int32_id: "- (2 ^ 31) \<le> x \<Longrightarrow> x < 2 ^ 31 \<Longrightarrow> int32 x = x"
  by (simp add: int32_def signed_take_bit_int_eq_self)

text \<open>A sequence of guarded stores to distinct addresses.\<close>

lemma fold_store_length:
  "length (gw_data (foldl (\<lambda>s ii. if c ii then store s (adr ii) (v ii) else s) st iis)) =
     length (gw_data st)"
  by (induction iis arbitrary: st) (auto simp: store_def)

lemma fold_store_writes:
  "gw_writes (foldl (\<lambda>s ii. if c ii then store s (adr ii) (v ii) else s) st iis) =
     rev (map adr (filter c iis)) @ gw_writes st"
  by (induction iis arbitrary: st) (auto simp: store_def)

lemma fold_store_miss:
  "\<forall>ii\<in>set iis. c ii \<longrightarrow> adr ii \<noteq> a \<Longrightarrow>
   gw_data (foldl (\<lambda>s ii. if c ii then store s (adr ii) (v ii) else s) st iis) ! a = gw_data st ! a"
  by (induction iis arbitrary: st) (auto simp: store_def)

lemma fold_store_hit:
  "distinct (map adr iis) \<Longrightarrow> ii0 \<in> set iis \<Longrightarrow> c ii0 \<Longrightarrow> adr ii0 < length (gw_data st) \<Longrightarrow>
   gw_data (foldl (\<lambda>s ii. if c ii then store s (adr ii) (v ii) else s) st iis) ! adr ii0 = v ii0"
proof (induction iis arbitrary: st)
  case Nil
  then show ?case by simp
next
  case (Cons i iis)
  show ?case
  proof (cases "i = ii0")
    case True
    have "\<forall>ii\<in>set iis. c ii \<longrightarrow> adr ii \<noteq> adr ii0"
      using Cons.prems(1) True by (auto simp: image_iff)
    from fold_store_miss [OF this] show ?thesis
      using True Cons.prems(3,4) by (simp add: store_def)
  next
    case False
    then have "ii0 \<in> set iis" using Cons.prems(2) by simp
    moreover have "distinct (map adr iis)" using Cons.prems(1) by simp
    ultimately show ?thesis
      using Cons.IH Cons.prems(3,4) by (simp add: store_def)
  qed
qed

text \<open>\<open>run_member\<close> as such a sequence of stores.\<close>

lemma run_member_fold:
  "run_member input indices grad_output count' (int S) start_feature idx st =
     foldl (\<lambda>s ii. if start_feature + ii * WARP_SIZE < S
                    then store s
                      (nat (int32 (int32 (input ! idx) * int S) + int (start_feature + ii * WARP_SIZE)))
                      (gw_data st ! nat (int32 (int32 (input ! idx) * int S)
                                          + int (start_feature + ii * WARP_SIZE))
                       + grad_output ! nat (int32 (int32 (indices ! idx) * int S)
                                          + int (start_feature + ii * WARP_SIZE))
                         * position_scale count' idx)
                    else s) st [0..<SZ]"
  unfolding run_member_def Let_def of_nat_less_iff
  by (rule foldl_cong) auto

lemma row_offset:
  assumes "0 \<le> r" "r < int N" "int N * int S < 2 ^ 31" "0 < S"
  shows "int32 (int32 r * int S) = r * int S"
proof -
  have "int N * 1 \<le> int N * int S" using assms(4) by (intro mult_left_mono) auto
  then have r: "r < 2 ^ 31" using assms(2,3) by linarith
  have "r * int S \<le> int N * int S" using assms(1,2) by (intro mult_right_mono) auto
  then have "r * int S < 2 ^ 31" using assms(3) by linarith
  moreover have "0 \<le> r * int S" using assms(1) by simp
  ultimately have "int32 (r * int S) = r * int S" by (intro int32_id) auto
  moreover have "int32 r = r" using r assms(1) by (intro int32_id) auto
  ultimately show ?thesis by simp
qed

lemma count_list_distinct: "distinct xs \<Longrightarrow> x \<in> set xs \<Longrightarrow> count_list xs x = 1"
  by (induction xs) (auto simp: count_list_0_iff)

lemma run_member_length:
  "length (gw_data (run_member input indices grad_output count' (int S) sf idx st)) =
     length (gw_data st)"
  by (simp add: run_member_fold fold_store_length)

lemma run_member_hit:
  assumes "0 \<le> input ! idx" "input ! idx < int NW" "int NW * int S < 2 ^ 31"
    and "0 \<le> indices ! idx" "indices ! idx < int n" "int n * int S < 2 ^ 31"
    and "NW * S \<le> length (gw_data st)" "ii < SZ" "sf + ii * WARP_SIZE < S"
    and "a = nat (input ! idx) * S + (sf + ii * WARP_SIZE)"
  shows "gw_data (run_member input indices grad_output count' (int S) sf idx st) ! a =
           gw_data st ! a
           + grad_output ! (nat (indices ! idx) * S + (sf + ii * WARP_SIZE)) * position_scale count' idx"
    and "count_list (gw_writes (run_member input indices grad_output count' (int S) sf idx st)) a =
           count_list (gw_writes st) a + 1"
proof -
  have S: "0 < S" using assms(9) by simp
  let ?r = "input ! idx" and ?g = "indices ! idx"
  have wr: "int32 (int32 ?r * int S) = ?r * int S"
    by (rule row_offset [OF assms(1,2,3) S])
  have gr: "int32 (int32 ?g * int S) = ?g * int S"
    by (rule row_offset [OF assms(4,5,6) S])
  let ?adr = "\<lambda>ii. nat (?r * int S + int (sf + ii * WARP_SIZE))"
  let ?c = "\<lambda>ii. sf + ii * WARP_SIZE < S"
  have adr: "?adr j = nat ?r * S + (sf + j * WARP_SIZE)" for j
    using assms(1) by (simp add: nat_add_distrib nat_mult_distrib)
  have gadr: "nat (?g * int S + int (sf + ii * WARP_SIZE)) = nat ?g * S + (sf + ii * WARP_SIZE)"
    using assms(4) by (simp add: nat_add_distrib nat_mult_distrib)
  have "distinct (map (\<lambda>j. nat ?r * S + (sf + j * WARP_SIZE)) [0..<SZ])"
    by (simp add: distinct_map inj_on_def WARP_SIZE_def)
  then have d: "distinct (map ?adr [0..<SZ])"
    by (simp only: adr)
  have ii: "ii \<in> set [0..<SZ]" using assms(8) by simp
  have c: "?c ii" using assms(9) by simp
  have "nat ?r * S + S \<le> NW * S"
  proof -
    have "nat ?r + 1 \<le> NW" using assms(1,2) by linarith
    then have "(nat ?r + 1) * S \<le> NW * S" by (rule mult_le_mono1)
    then show ?thesis by simp
  qed
  then have bound: "?adr ii < length (gw_data st)"
    using assms(7,9) by (simp add: adr del: of_nat_add of_nat_mult)
  show "gw_data (run_member input indices grad_output count' (int S) sf idx st) ! a =
      gw_data st ! a
      + grad_output ! (nat (indices ! idx) * S + (sf + ii * WARP_SIZE)) * position_scale count' idx"
    unfolding run_member_fold wr gr
    using fold_store_hit [of ?adr "[0..<SZ]" ii ?c st, OF d ii c bound]
    by (simp add: adr gadr assms(10) del: of_nat_add of_nat_mult)
  have mem: "a \<in> set (map ?adr (filter ?c [0..<SZ]))"
    using assms(8,9,10) by (auto simp: adr image_iff simp del: of_nat_add of_nat_mult)
  have "distinct (map ?adr (filter ?c [0..<SZ]))"
    using d by (simp add: distinct_map_filter)
  from count_list_distinct [OF this mem]
  show "count_list (gw_writes (run_member input indices grad_output count' (int S) sf idx st)) a =
      count_list (gw_writes st) a + 1"
    unfolding run_member_fold wr gr by (simp add: fold_store_writes del: of_nat_add of_nat_mult)
qed

lemma run_member_miss:
  assumes "0 \<le> input ! idx" "input ! idx < int NW" "int NW * int S < 2 ^ 31"
    and "\<forall>ii<SZ. sf + ii * WARP_SIZE < S \<longrightarrow> a \<noteq> nat (input ! idx) * S + (sf + ii * WARP_SIZE)"
  shows "gw_data (run_member input indices grad_output count' (int S) sf idx st) ! a = gw_data st ! a"
    and "count_list (gw_writes (run_member input indices grad_output count' (int S) sf idx st)) a =
           count_list (gw_writes st) a"
proof -
  let ?r = "input ! idx"
  let ?adr = "\<lambda>ii. nat (int32 (int32 ?r * int S) + int (sf + ii * WARP_SIZE))"
  let ?c = "\<lambda>ii. sf + ii * WARP_SIZE < S"
  have adr: "?adr j = nat ?r * S + (sf + j * WARP_SIZE)" if "?c j" for j
  proof -
    have "0 < S" using that by simp
    from row_offset [OF assms(1,2,3) this] show ?thesis
      using assms(1) by (simp add: nat_add_distrib nat_mult_distrib)
  qed
  have miss: "\<forall>ii\<in>set [0..<SZ]. ?c ii \<longrightarrow> ?adr ii \<noteq> a"
    using assms(4) adr by (auto simp del: of_nat_add of_nat_mult)
  show "gw_data (run_member input indices grad_output count' (int S) sf idx st) ! a = gw_data st ! a"
    unfolding run_member_fold by (rule fold_store_miss [OF miss])
  have "a \<notin> set (map ?adr (filter ?c [0..<SZ]))"
    using miss by (auto simp del: of_nat_add of_nat_mult)
  then have "count_list (map ?adr (filter ?c [0..<SZ])) a = 0"
    by (simp only: count_list_0_iff not_False_eq_True)
  then show "count_list (gw_writes (run_member input indices grad_output count' (int S) sf idx st)) a =
      count_list (gw_writes st) a"
    unfolding run_member_fold by (simp add: fold_store_writes del: of_nat_add of_nat_mult)
qed


lemma run_loop_length:
  "length (gw_data (run_loop input indices grad_output count' n (int S) sf idx st)) =
     length (gw_data st)"
proof (induction "n - idx" arbitrary: idx st rule: less_induct)
  case less
  show ?case
    by (subst run_loop.simps) (auto simp: Let_def run_member_length less)
qed

lemma sorted_no_later_occurrence:
  assumes "sorted (xs :: int list)" "Suc i < length xs" "xs ! Suc i \<noteq> xs ! i"
  shows "filter (\<lambda>k. xs ! k = xs ! i) [Suc i..<length xs] = []"
proof -
  have "xs ! i < xs ! k" if "Suc i \<le> k" "k < length xs" for k
  proof -
    have "xs ! i \<le> xs ! Suc i" using assms(1,2) by (intro sorted_nth_mono) auto
    moreover have "xs ! Suc i \<le> xs ! k" using assms(1) that by (intro sorted_nth_mono) auto
    ultimately show ?thesis using assms(3) by linarith
  qed
  then have "\<forall>k\<in>set [Suc i..<length xs]. xs ! k \<noteq> xs ! i" by fastforce
  then show ?thesis by (simp only: filter_empty_conv)
qed

lemma run_loop_hit:
  assumes "sorted input" "length input = n"
    and "\<forall>k<n. 0 \<le> input ! k \<and> input ! k < int NW"
    and "\<forall>k<n. 0 \<le> indices ! k \<and> indices ! k < int n"
    and "int NW * int S < 2 ^ 31" "int n * int S < 2 ^ 31"
    and "ii < SZ" "sf + ii * WARP_SIZE < S"
  shows "idx < n \<Longrightarrow> NW * S \<le> length (gw_data st) \<Longrightarrow>
         a = nat (input ! idx) * S + (sf + ii * WARP_SIZE) \<Longrightarrow>
         gw_data (run_loop input indices grad_output count' n (int S) sf idx st) ! a =
           gw_data st ! a
           + sum_list (map (\<lambda>k. grad_output ! (nat (indices ! k) * S + (sf + ii * WARP_SIZE))
                                  * position_scale count' k)
               (filter (\<lambda>k. input ! k = input ! idx) [idx..<n])) \<and>
         count_list (gw_writes (run_loop input indices grad_output count' n (int S) sf idx st)) a =
           count_list (gw_writes st) a + length (filter (\<lambda>k. input ! k = input ! idx) [idx..<n])"
proof (induction "n - idx" arbitrary: idx st rule: less_induct)
  case less
  let ?st' = "run_member input indices grad_output count' (int S) sf idx st"
  have in1: "0 \<le> input ! idx" "input ! idx < int NW" using assms(3) less.prems(1) by auto
  have in2: "0 \<le> indices ! idx" "indices ! idx < int n" using assms(4) less.prems(1) by auto
  note hit = run_member_hit [OF in1 assms(5) in2 assms(6) less.prems(2) assms(7,8) less.prems(3),
      of grad_output count']
  have len': "NW * S \<le> length (gw_data ?st')" using less.prems(2) by (simp add: run_member_length)
  have upt: "[idx..<n] = idx # [Suc idx..<n]" using less.prems(1) by (simp add: upt_conv_Cons)
  show ?case
  proof (cases "Suc idx < n \<and> input ! Suc idx = input ! idx")
    case True
    then have eq: "input ! Suc idx = input ! idx" and lt: "Suc idx < n" by auto
    have a': "a = nat (input ! Suc idx) * S + (sf + ii * WARP_SIZE)" using less.prems(3) eq by simp
    have "n - Suc idx < n - idx" using lt by simp
    from less.hyps [OF this lt len' a'] hit True
    show ?thesis
      by (subst (1 2) run_loop.simps) (simp add: Let_def upt eq)
  next
    case False
    have "filter (\<lambda>k. input ! k = input ! idx) [Suc idx..<n] = []"
    proof (cases "Suc idx < n")
      case True
      with False have "input ! Suc idx \<noteq> input ! idx" by simp
      from sorted_no_later_occurrence [OF assms(1) _ this] True assms(2) show ?thesis by simp
    next
      case False
      then show ?thesis by simp
    qed
    with hit False show ?thesis
      by (subst (1 2) run_loop.simps) (auto simp add: Let_def upt)
  qed
qed

lemma run_loop_miss:
  assumes "sorted input" "length input = n"
    and "\<forall>k<n. 0 \<le> input ! k \<and> input ! k < int NW"
    and "int NW * int S < 2 ^ 31"
  shows "idx < n \<Longrightarrow>
         \<forall>ii<SZ. sf + ii * WARP_SIZE < S \<longrightarrow> a \<noteq> nat (input ! idx) * S + (sf + ii * WARP_SIZE) \<Longrightarrow>
         gw_data (run_loop input indices grad_output count' n (int S) sf idx st) ! a = gw_data st ! a \<and>
         count_list (gw_writes (run_loop input indices grad_output count' n (int S) sf idx st)) a =
           count_list (gw_writes st) a"
proof (induction "n - idx" arbitrary: idx st rule: less_induct)
  case less
  let ?st' = "run_member input indices grad_output count' (int S) sf idx st"
  have in1: "0 \<le> input ! idx" "input ! idx < int NW" using assms(3) less.prems(1) by auto
  note miss = run_member_miss [OF in1 assms(4) less.prems(2), of indices grad_output count' st]
  show ?case
  proof (cases "Suc idx < n \<and> input ! Suc idx = input ! idx")
    case True
    then have eq: "input ! Suc idx = input ! idx" and lt: "Suc idx < n" by auto
    have a': "\<forall>ii<SZ. sf + ii * WARP_SIZE < S \<longrightarrow>
        a \<noteq> nat (input ! Suc idx) * S + (sf + ii * WARP_SIZE)"
      using less.prems(2) eq by simp
    have "n - Suc idx < n - idx" using lt by simp
    from less.hyps [OF this lt a', of ?st'] miss True
    show ?thesis
      by (subst (1 2) run_loop.simps) (simp add: Let_def)
  next
    case False
    with miss show ?thesis
      by (subst (1 2) run_loop.simps) (auto simp add: Let_def)
  qed
qed


text \<open>One thread: it changes an element only if it owns the run of the element's row and the column.\<close>

lemma thread_length:
  "length (gw_data (embedding_backward_kernel_thread input indices grad_output count' n (int S)
      pad bd bt st)) = length (gw_data st)"
  by (simp add: embedding_backward_kernel_thread_def Let_def run_loop_length)

lemma thread_hit:
  assumes "sorted input" "length input = n"
    and "\<forall>k<n. 0 \<le> input ! k \<and> input ! k < int NW"
    and "\<forall>k<n. 0 \<le> indices ! k \<and> indices ! k < int n"
    and "int NW * int S < 2 ^ 31" "int n * int S < 2 ^ 31"
    and "NW * S \<le> length (gw_data st)"
    and "idx = bx * 4 + ty" "sf = tx + by * 32 * SZ"
    and "idx < n" "idx = 0 \<or> input ! idx \<noteq> input ! (idx - 1)" "input ! idx \<noteq> pad"
    and "ii < SZ" "sf + ii * WARP_SIZE < S" "a = nat (input ! idx) * S + (sf + ii * WARP_SIZE)"
  shows "gw_data (embedding_backward_kernel_thread input indices grad_output count' n (int S) pad
            (32, 4) ((bx, by), (tx, ty)) st) ! a =
           gw_data st ! a
           + sum_list (map (\<lambda>k. grad_output ! (nat (indices ! k) * S + (sf + ii * WARP_SIZE))
                                  * position_scale count' k)
               (filter (\<lambda>k. input ! k = input ! idx) [idx..<n]))"
    and "count_list (gw_writes (embedding_backward_kernel_thread input indices grad_output count' n
            (int S) pad (32, 4) ((bx, by), (tx, ty)) st)) a =
           count_list (gw_writes st) a + length (filter (\<lambda>k. input ! k = input ! idx) [idx..<n])"
  using run_loop_hit [OF assms(1-6) assms(13,14) assms(10) assms(7) assms(15), of grad_output count']
    assms(8-12)
  by (simp_all add: embedding_backward_kernel_thread_def Let_def)

lemma thread_miss:
  assumes "sorted input" "length input = n"
    and "\<forall>k<n. 0 \<le> input ! k \<and> input ! k < int NW"
    and "int NW * int S < 2 ^ 31"
    and "idx = bx * 4 + ty" "sf = tx + by * 32 * SZ"
    and "\<not> (idx < n \<and> (idx = 0 \<or> input ! idx \<noteq> input ! (idx - 1)) \<and> input ! idx \<noteq> pad \<and>
            (\<exists>ii<SZ. sf + ii * WARP_SIZE < S \<and> a = nat (input ! idx) * S + (sf + ii * WARP_SIZE)))"
  shows "gw_data (embedding_backward_kernel_thread input indices grad_output count' n (int S) pad
            (32, 4) ((bx, by), (tx, ty)) st) ! a = gw_data st ! a \<and>
         count_list (gw_writes (embedding_backward_kernel_thread input indices grad_output count' n
            (int S) pad (32, 4) ((bx, by), (tx, ty)) st)) a = count_list (gw_writes st) a"
proof (cases "idx < n \<and> (idx = 0 \<or> input ! idx \<noteq> input ! (idx - 1)) \<and> input ! idx \<noteq> pad")
  case True
  with assms(7) have "\<forall>ii<SZ. sf + ii * WARP_SIZE < S \<longrightarrow>
      a \<noteq> nat (input ! idx) * S + (sf + ii * WARP_SIZE)" by blast
  from run_loop_miss [OF assms(1-4) _ this, of indices grad_output count' st] True assms(5,6)
  show ?thesis by (simp add: embedding_backward_kernel_thread_def Let_def)
next
  case False
  with assms(5,6) show ?thesis
    by (auto simp add: embedding_backward_kernel_thread_def Let_def)
qed

text \<open>A fold in which exactly one step changes the observed value.\<close>

lemma foldl_all_miss:
  assumes "\<And>t s. t \<in> set ts \<Longrightarrow> I s \<Longrightarrow> I (step s t) \<and> val (step s t) = val s" "I s0"
  shows "I (foldl step s0 ts) \<and> val (foldl step s0 ts) = val s0"
  using assms by (induction ts arbitrary: s0) auto

lemma foldl_single_hit:
  fixes val :: "'s \<Rightarrow> 'a :: plus"
  assumes "distinct ts" "u \<in> set ts"
    and "\<And>t s. t \<in> set ts \<Longrightarrow> I s \<Longrightarrow> I (step s t)"
    and "\<And>t s. t \<in> set ts \<Longrightarrow> t \<noteq> u \<Longrightarrow> I s \<Longrightarrow> val (step s t) = val s"
    and "\<And>s. I s \<Longrightarrow> val (step s u) = val s + x"
    and "I s0"
  shows "val (foldl step s0 ts) = val s0 + x"
proof -
  from split_list [OF assms(2)] obtain pre post where ts: "ts = pre @ u # post" by blast
  with assms(1) have n: "u \<notin> set pre" "u \<notin> set post" by auto
  have 1: "I (foldl step s0 pre) \<and> val (foldl step s0 pre) = val s0"
    by (rule foldl_all_miss) (use assms(3,4,6) n ts in auto)
  then have 2: "I (step (foldl step s0 pre) u)" "val (step (foldl step s0 pre) u) = val s0 + x"
    using assms(3) [of u] assms(5) ts by auto
  have "I (foldl step (step (foldl step s0 pre) u) post) \<and>
      val (foldl step (step (foldl step s0 pre) u) post) = val (step (foldl step s0 pre) u)"
    by (rule foldl_all_miss) (use assms(3,4) n ts 2 in auto)
  with 2 show ?thesis by (simp add: ts)
qed

lemma distinct_launch_threads: "distinct (launch_threads gd bd)"
  by (auto simp: launch_threads_def block_threads_def distinct_product distinct_map inj_on_def)

lemma set_launch_threads:
  "((bx, by), (tx, ty)) \<in> set (launch_threads gd bd) \<longleftrightarrow>
     bx < fst gd \<and> by < snd gd \<and> tx < fst bd \<and> ty < snd bd"
  by (auto simp: launch_threads_def block_threads_def)

lemma address_unique:
  assumes "R * S + f = R' * S + f'" "f < S" "f' < S"
  shows "R = R' \<and> f = (f' :: nat)"
proof -
  have "(R * S + f) div S = R" "(R * S + f) mod S = f" using assms(2) by auto
  moreover have "(R' * S + f') div S = R'" "(R' * S + f') mod S = f'" using assms(3) by auto
  ultimately show ?thesis using assms(1) by metis
qed


lemma length_filter_nth_count_list:
  "length (filter (\<lambda>k. xs ! k = r) [0..<length xs]) = count_list xs r"
proof (induction xs rule: rev_induct)
  case Nil
  then show ?case by simp
next
  case (snoc x xs)
  have "filter (\<lambda>k. (xs @ [x]) ! k = r) [0..<length xs] = filter (\<lambda>k. xs ! k = r) [0..<length xs]"
    by (rule filter_cong) (auto simp: nth_append)
  then show ?case using snoc by simp
qed

lemma ceil_div_covers: "0 < b \<Longrightarrow> i < n \<Longrightarrow> i div b < THCCeilDiv n b"
proof -
  assume b: "0 < b" and i: "i < n"
  have "i div b * b \<le> i" by simp
  then have "i div b * b + b \<le> n + b - 1" using i b by linarith
  then have "(i div b + 1) * b \<le> n + b - 1" by (simp add: algebra_simps)
  then have "i div b + 1 \<le> (n + b - 1) div b" using b by (simp add: less_eq_div_iff_mult_less_eq)
  then show ?thesis by (simp add: THCCeilDiv_def)
qed

lemma first_occurrence:
  assumes "r \<in> set xs"
  obtains i0 where "i0 < length xs" "xs ! i0 = r" "\<forall>j<i0. xs ! j \<noteq> r"
proof -
  let ?P = "\<lambda>i. i < length xs \<and> xs ! i = r"
  from assms obtain i where "?P i" by (auto simp: in_set_conv_nth)
  then have "?P (LEAST i. ?P i)" by (rule LeastI)
  moreover have "\<forall>j<(LEAST i. ?P i). xs ! j \<noteq> r"
    using not_less_Least [of _ ?P] calculation by (metis less_trans)
  ultimately show ?thesis using that by blast
qed

lemma kernel_row_unchanged:
  assumes "sorted input" "length input = n"
    and "\<forall>k<n. 0 \<le> input ! k \<and> input ! k < int NW"
    and "int NW * int S < 2 ^ 31"
    and "0 \<le> r" "f < S"
    and "r = pad \<or> r \<notin> set input"
  shows "gw_data (embedding_backward_kernel gd (32, 4) input indices grad_output st count' n
            (int S) pad) ! (nat r * S + f) = gw_data st ! (nat r * S + f) \<and>
         count_list (gw_writes (embedding_backward_kernel gd (32, 4) input indices grad_output st
            count' n (int S) pad)) (nat r * S + f) = count_list (gw_writes st) (nat r * S + f)"
proof -
  let ?a = "nat r * S + f"
  let ?step = "\<lambda>st bt. embedding_backward_kernel_thread input indices grad_output count' n
      (int S) pad (32, 4) bt st"
  let ?val = "\<lambda>st. (gw_data st ! ?a, count_list (gw_writes st) ?a)"
  have "True \<and> ?val (foldl ?step st (launch_threads gd (32, 4))) = ?val st"
  proof (rule foldl_all_miss [where I = "\<lambda>s. True"])
    fix t :: "(nat \<times> nat) \<times> (nat \<times> nat)" and s :: gw_state
    obtain bx "by" tx ty where t: "t = ((bx, by), (tx, ty))" by (metis surj_pair)
    let ?idx = "bx * 4 + ty" and ?sf = "tx + by * 32 * SZ"
    have "\<not> (?idx < n \<and> (?idx = 0 \<or> input ! ?idx \<noteq> input ! (?idx - 1)) \<and> input ! ?idx \<noteq> pad \<and>
        (\<exists>ii<SZ. ?sf + ii * WARP_SIZE < S \<and> ?a = nat (input ! ?idx) * S + (?sf + ii * WARP_SIZE)))"
    proof
      assume h: "?idx < n \<and> (?idx = 0 \<or> input ! ?idx \<noteq> input ! (?idx - 1)) \<and> input ! ?idx \<noteq> pad \<and>
        (\<exists>ii<SZ. ?sf + ii * WARP_SIZE < S \<and> ?a = nat (input ! ?idx) * S + (?sf + ii * WARP_SIZE))"
      then obtain ii where "?sf + ii * WARP_SIZE < S"
          "?a = nat (input ! ?idx) * S + (?sf + ii * WARP_SIZE)" by blast
      from address_unique [OF this(2) assms(6) this(1)] have "nat r = nat (input ! ?idx)" by simp
      moreover have "0 \<le> input ! ?idx" using assms(3) h by simp
      ultimately have "input ! ?idx = r" using assms(5) by simp
      with h assms(2,7) show False by (auto simp: in_set_conv_nth)
    qed
    from thread_miss [OF assms(1-4) refl refl this, of indices grad_output count' s]
    show "True \<and> ?val (?step s t) = ?val s" by (simp add: t)
  qed simp
  then show ?thesis by (simp add: embedding_backward_kernel_def)
qed

lemma lane_decomposition:
  "f mod 32 + f div 128 * 32 * 4 + (f mod 128 div 32) * 32 = (f :: nat)"
proof -
  have a: "f mod 128 mod 32 = f mod 32" by (simp add: mod_mod_cancel)
  have b: "f mod 128 = f mod 128 div 32 * 32 + f mod 128 mod 32" by simp
  have c: "f = f div 128 * 128 + f mod 128" by simp
  from a b c show ?thesis by linarith
qed

lemma lane_unique:
  assumes "tx + b * 32 * 4 + ii * 32 = (f :: nat)" "tx < 32" "ii < 4"
  shows "tx = f mod 32 \<and> b = f div 128"
proof -
  have "f = tx + (4 * b + ii) * 32" using assms(1) by simp
  then have 1: "f mod 32 = tx" using assms(2) by (simp only: mod_mult_self1) simp
  have "f = (tx + ii * 32) + b * 128" using assms(1) by simp
  moreover have "tx + ii * 32 < 128" using assms(2,3) by simp
  ultimately have "f div 128 = b" by simp
  with 1 show ?thesis by simp
qed

lemma kernel_row_accumulated:
  assumes "sorted input" "length input = n"
    and "\<forall>k<n. 0 \<le> input ! k \<and> input ! k < int NW"
    and "\<forall>k<n. 0 \<le> indices ! k \<and> indices ! k < int n"
    and "int NW * int S < 2 ^ 31" "int n * int S < 2 ^ 31"
    and "NW * S \<le> length (gw_data st)"
    and "f < S" "r \<noteq> pad" "r \<in> set input"
  shows "gw_data (embedding_backward_kernel (THCCeilDiv n 4, THCCeilDiv S 128) (32, 4) input indices
            grad_output st count' n (int S) pad) ! (nat r * S + f) =
           gw_data st ! (nat r * S + f)
           + sum_list (map (\<lambda>k. grad_output ! (nat (indices ! k) * S + f) * position_scale count' k)
               (filter (\<lambda>k. input ! k = r) [0..<n]))"
    and "count_list (gw_writes (embedding_backward_kernel (THCCeilDiv n 4, THCCeilDiv S 128) (32, 4)
            input indices grad_output st count' n (int S) pad)) (nat r * S + f) =
           count_list (gw_writes st) (nat r * S + f) + count_list input r"
proof -
  let ?a = "nat r * S + f"
  let ?gd = "(THCCeilDiv n 4, THCCeilDiv S 128)"
  let ?ts = "launch_threads ?gd (32, 4)"
  let ?step = "\<lambda>st bt. embedding_backward_kernel_thread input indices grad_output count' n
      (int S) pad (32, 4) bt st"
  let ?I = "\<lambda>s. NW * S \<le> length (gw_data s)"
  from first_occurrence [OF assms(10)] obtain idx0 where
    idx0: "idx0 < n" "input ! idx0 = r" "\<forall>j<idx0. input ! j \<noteq> r"
    using assms(2) by auto
  have r0: "0 \<le> r" using assms(3) idx0 by auto
  have first0: "idx0 = 0 \<or> input ! idx0 \<noteq> input ! (idx0 - 1)"
    using idx0 by (cases idx0) auto
  define t0 where "t0 = ((idx0 div 4, f div 128), (f mod 32, idx0 mod 4))"
  define ii0 where "ii0 = f mod 128 div 32"
  let ?sf0 = "f mod 32 + f div 128 * 32 * SZ"
  have sf0: "?sf0 + ii0 * WARP_SIZE = f"
    using lane_decomposition [of f] by (simp add: SZ_def WARP_SIZE_def ii0_def)
  have ii0: "ii0 < SZ" by (simp add: ii0_def SZ_def div_less_iff_less_mult)
  have idx0': "idx0 = idx0 div 4 * 4 + idx0 mod 4" by simp
  have t0_in: "t0 \<in> set ?ts"
    unfolding t0_def set_launch_threads
    using ceil_div_covers [of 4 idx0 n] ceil_div_covers [of 128 f S] idx0(1) assms(8) by simp
  have prefix: "filter (\<lambda>k. input ! k = r) [0..<idx0] = []"
    using idx0(3) by (auto simp: filter_empty_conv)
  have "[0..<n] = [0..<idx0] @ [idx0..<n]"
    using idx0(1) by (metis le_add_diff_inverse less_imp_le_nat upt_add_eq_append zero_le)
  then have whole: "filter (\<lambda>k. input ! k = r) [0..<n] = filter (\<lambda>k. input ! k = r) [idx0..<n]"
    using prefix by simp
  have inv: "?I (?step s t)" if "?I s" for s t
    using that by (simp add: thread_length)
  have hit: "gw_data (?step s t0) ! ?a = gw_data s ! ?a
        + sum_list (map (\<lambda>k. grad_output ! (nat (indices ! k) * S + f) * position_scale count' k)
            (filter (\<lambda>k. input ! k = r) [0..<n]))"
      "count_list (gw_writes (?step s t0)) ?a = count_list (gw_writes s) ?a + count_list input r"
    if "?I s" for s
  proof -
    have a: "?a = nat (input ! idx0) * S + (?sf0 + ii0 * WARP_SIZE)"
      using sf0 idx0(2) by simp
    have lt: "?sf0 + ii0 * WARP_SIZE < S" using sf0 assms(8) by simp
    have ne: "input ! idx0 \<noteq> pad" using idx0(2) assms(9) by simp
    note h = thread_hit [OF assms(1-6) that idx0' refl idx0(1) first0 ne ii0 lt a,
        of grad_output count']
    have c: "length (filter (\<lambda>k. input ! k = r) [idx0..<n]) = count_list input r"
      using length_filter_nth_count_list [of input r] whole assms(2) by simp
    from h(1) show "gw_data (?step s t0) ! ?a = gw_data s ! ?a
        + sum_list (map (\<lambda>k. grad_output ! (nat (indices ! k) * S + f) * position_scale count' k)
            (filter (\<lambda>k. input ! k = r) [0..<n]))"
      unfolding sf0 idx0(2) whole t0_def .
    from h(2) show "count_list (gw_writes (?step s t0)) ?a =
        count_list (gw_writes s) ?a + count_list input r"
      unfolding idx0(2) c t0_def .
  qed
  have miss: "gw_data (?step s t) ! ?a = gw_data s ! ?a \<and>
      count_list (gw_writes (?step s t)) ?a = count_list (gw_writes s) ?a"
    if t: "t \<in> set ?ts" "t \<noteq> t0" for s t
  proof -
    obtain bx "by" tx ty where tt: "t = ((bx, by), (tx, ty))" by (metis surj_pair)
    from t(1) have lanes: "tx < 32" "ty < 4" by (auto simp: tt set_launch_threads)
    let ?idx = "bx * 4 + ty" and ?sf = "tx + by * 32 * SZ"
    have "\<not> (?idx < n \<and> (?idx = 0 \<or> input ! ?idx \<noteq> input ! (?idx - 1)) \<and> input ! ?idx \<noteq> pad \<and>
        (\<exists>ii<SZ. ?sf + ii * WARP_SIZE < S \<and> ?a = nat (input ! ?idx) * S + (?sf + ii * WARP_SIZE)))"
    proof
      assume h: "?idx < n \<and> (?idx = 0 \<or> input ! ?idx \<noteq> input ! (?idx - 1)) \<and> input ! ?idx \<noteq> pad \<and>
        (\<exists>ii<SZ. ?sf + ii * WARP_SIZE < S \<and> ?a = nat (input ! ?idx) * S + (?sf + ii * WARP_SIZE))"
      then obtain ii where ii: "ii < SZ" "?sf + ii * WARP_SIZE < S"
          "?a = nat (input ! ?idx) * S + (?sf + ii * WARP_SIZE)" by blast
      from address_unique [OF ii(3) assms(8) ii(2)]
      have u: "nat r = nat (input ! ?idx)" "f = ?sf + ii * WARP_SIZE" by simp_all
      moreover have "0 \<le> input ! ?idx" using assms(3) h by simp
      ultimately have row: "input ! ?idx = r" using r0 by simp
      have "\<not> ?idx < idx0" using idx0(3) row by blast
      moreover have "\<not> idx0 < ?idx"
      proof
        assume less: "idx0 < ?idx"
        then have "input ! idx0 \<le> input ! (?idx - 1)" "input ! (?idx - 1) \<le> input ! ?idx"
          using assms(1,2) h by (auto intro!: sorted_nth_mono)
        then have "input ! (?idx - 1) = input ! ?idx" using row idx0(2) by simp
        with h less show False by simp
      qed
      ultimately have "?idx = idx0" by simp
      then have "bx = idx0 div 4" "ty = idx0 mod 4" using lanes(2) by auto
      moreover have "tx = f mod 32 \<and> by = f div 128"
        using lane_unique [of tx "by" ii f] u(2) lanes(1) ii(1) by (simp add: SZ_def WARP_SIZE_def)
      ultimately show False using t(2) by (simp add: tt t0_def)
    qed
    from thread_miss [OF assms(1,2,3,5) refl refl this, of indices grad_output count' s]
    show ?thesis by (simp add: tt)
  qed
  show "gw_data (embedding_backward_kernel ?gd (32, 4) input indices
            grad_output st count' n (int S) pad) ! ?a =
           gw_data st ! ?a
           + sum_list (map (\<lambda>k. grad_output ! (nat (indices ! k) * S + f) * position_scale count' k)
               (filter (\<lambda>k. input ! k = r) [0..<n]))"
    unfolding embedding_backward_kernel_def
    by (rule foldl_single_hit [where I = ?I and u = t0 and step = ?step and ts = ?ts
            and val = "\<lambda>s. gw_data s ! ?a"])
      (use distinct_launch_threads t0_in inv miss hit(1) assms(7) in simp_all)
  show "count_list (gw_writes (embedding_backward_kernel ?gd (32, 4)
            input indices grad_output st count' n (int S) pad)) ?a =
           count_list (gw_writes st) ?a + count_list input r"
    unfolding embedding_backward_kernel_def
    by (rule foldl_single_hit [where I = ?I and u = t0 and step = ?step and ts = ?ts
            and val = "\<lambda>s. count_list (gw_writes s) ?a"])
      (use distinct_launch_threads t0_in inv miss hit(2) assms(7) in simp_all)
qed


text \<open>From sorted positions back to the positions of the index list.\<close>

lemma sum_list_filter_mset_cong:
  fixes g :: "'a \<Rightarrow> real"
  assumes "mset xs = mset ys"
  shows "sum_list (map g (filter P xs)) = sum_list (map g (filter P ys))"
proof -
  have "mset (map g (filter P xs)) = mset (map g (filter P ys))"
    using assms by (metis mset_filter mset_map)
  then show ?thesis by (metis sum_mset_sum_list)
qed

lemma sorted_positions_sum:
  assumes "length oi = n" "length si = n"
    and "mset oi = mset (map int [0..<n])"
    and "\<And>k. k < n \<Longrightarrow> si ! k = indices ! nat (oi ! k)"
  shows "sum_list (map (\<lambda>k. h (nat (oi ! k))) (filter (\<lambda>k. si ! k = r) [0..<n])) =
         sum_list (map (h :: nat \<Rightarrow> real) (filter (\<lambda>i. indices ! i = r) [0..<n]))"
proof -
  have 1: "filter (\<lambda>k. si ! k = r) [0..<n] = filter (\<lambda>k. indices ! nat (oi ! k) = r) [0..<n]"
    by (rule filter_cong) (use assms(4) in auto)
  have 2: "map (\<lambda>k. h (nat (oi ! k))) (filter (\<lambda>k. indices ! nat (oi ! k) = r) [0..<n]) =
      map h (filter (\<lambda>i. indices ! i = r) (map (\<lambda>k. nat (oi ! k)) [0..<n]))"
    by (simp add: filter_map comp_def)
  have 3: "map (\<lambda>k. nat (oi ! k)) [0..<n] = map nat oi"
    using assms(1) by (intro nth_equalityI) auto
  have "mset (map nat oi) = mset (map nat (map int [0..<n]))"
    using assms(3) by (metis mset_map)
  then have 4: "mset (map nat oi) = mset [0..<n]" by (simp add: comp_def)
  show ?thesis
    unfolding 1 2 3 by (rule sum_list_filter_mset_cong [OF 4])
qed

lemma in_range_nth:
  "list_all P xs \<Longrightarrow> i < length xs \<Longrightarrow> P (xs ! i)"
  by (simp add: list_all_length)

lemma sort_grouped_path_element:
  assumes "backward_input_ok grad indices NW S pad"
    and "sort_by_key_contract indices (map int [0..<length indices])
           (sort_by_key indices (map int [0..<length indices]))"
    and "0 \<le> r" "r < int NW" "f < S"
  shows "gw_data (sort_grouped_path sort_by_key grad indices NW S pad scale) ! (nat r * S + f) =
           (if r = pad then 0
            else row_sum grad indices S r f / (if scale then real (count_list indices r) else 1))"
    and "count_list (gw_writes (sort_grouped_path sort_by_key grad indices NW S pad scale))
           (nat r * S + f) = (if r = pad then 0 else count_list indices r)"
proof -
  let ?n = "length indices"
  obtain si oi where so: "sort_by_key indices (map int [0..<?n]) = (si, oi)" by (cases "sort_by_key indices (map int [0..<?n])")
  note c = sort_contract_facts [OF assms(2) [unfolded so]]
  from assms(1) have ok: "list_all (\<lambda>i. 0 \<le> i \<and> i < int NW) indices"
      "int NW * int S < 2 ^ 31" "int ?n * int S < 2 ^ 31" "- (2 ^ 31) \<le> pad" "pad < 2 ^ 31"
    by (auto simp: backward_input_ok_def)
  have pad: "int32 pad = pad" using ok(4,5) by (rule int32_id)
  have A3: "\<forall>k<?n. 0 \<le> si ! k \<and> si ! k < int NW"
    using c(6) in_range_nth [OF ok(1)] by auto
  have A4: "\<forall>k<?n. 0 \<le> oi ! k \<and> oi ! k < int ?n"
  proof (intro allI impI)
    fix k assume "k < ?n"
    from c(6) [OF this] show "0 \<le> oi ! k \<and> oi ! k < int ?n" by linarith
  qed
  let ?count = "if scale then Some (frequency_counts si) else None"
  let ?st = "\<lparr>gw_data = replicate (NW * S) (0::real), gw_writes = []\<rparr>"
  let ?a = "nat r * S + f"
  let ?k = "embedding_backward_kernel (THCCeilDiv ?n 4, THCCeilDiv S 128) (32, 4) si oi grad ?st
      ?count ?n (int S) pad"
  have path: "sort_grouped_path sort_by_key grad indices NW S pad scale = ?k"
    by (simp add: sort_grouped_path_def so pad Let_def)
  have "nat r + 1 \<le> NW" using assms(3,4) by linarith
  then have "(nat r + 1) * S \<le> NW * S" by (rule mult_le_mono1)
  then have a: "?a < NW * S" using assms(5) by simp
  have set_eq: "set si = set indices" using c(4) by (metis set_mset_mset)
  show "gw_data (sort_grouped_path sort_by_key grad indices NW S pad scale) ! ?a =
      (if r = pad then 0
       else row_sum grad indices S r f / (if scale then real (count_list indices r) else 1))"
  proof (cases "r = pad \<or> r \<notin> set si")
    case True
    have "row_sum grad indices S r f = 0" if "r \<notin> set si"
    proof -
      have "filter (\<lambda>i. indices ! i = r) [0..<?n] = []"
        using that set_eq by (auto simp: filter_empty_conv)
      then show ?thesis by (simp add: row_sum_def)
    qed
    with kernel_row_unchanged [OF c(1,2) A3 ok(2) assms(3,5) True, of _ oi grad ?st ?count] a True
    show ?thesis by (auto simp: path)
  next
    case False
    then have r: "r \<noteq> pad" "r \<in> set si" by auto
    let ?kappa = "if scale then 1 / real (count_list indices r) else 1"
    have scale: "position_scale ?count k = ?kappa" if "k < ?n" "si ! k = r" for k
    proof (cases scale)
      case True
      have "frequency_counts si ! k = int (count_list si (si ! k))"
        using frequency_counts_nth [OF c(1)] that c(2) by simp
      then show ?thesis
        using True that count_list_mset [OF c(4)] by (simp add: position_scale_def)
    next
      case False
      then show ?thesis by (simp add: position_scale_def)
    qed
    have "sum_list (map (\<lambda>k. grad ! (nat (oi ! k) * S + f) * position_scale ?count k)
              (filter (\<lambda>k. si ! k = r) [0..<?n])) =
          sum_list (map (\<lambda>k. grad ! (nat (oi ! k) * S + f) * ?kappa)
              (filter (\<lambda>k. si ! k = r) [0..<?n]))"
      by (rule arg_cong [where f = sum_list], rule map_cong) (use scale in auto)
    also have "\<dots> = sum_list (map (\<lambda>k. grad ! (nat (oi ! k) * S + f))
              (filter (\<lambda>k. si ! k = r) [0..<?n])) * ?kappa"
      by (rule sum_list_mult_const)
    also have "sum_list (map (\<lambda>k. grad ! (nat (oi ! k) * S + f))
              (filter (\<lambda>k. si ! k = r) [0..<?n])) = row_sum grad indices S r f"
      unfolding row_sum_def
      by (rule sorted_positions_sum [OF c(3,2,5), where h = "\<lambda>i. grad ! (i * S + f)"])
        (use c(6) in auto)
    finally have "sum_list (map (\<lambda>k. grad ! (nat (oi ! k) * S + f) * position_scale ?count k)
              (filter (\<lambda>k. si ! k = r) [0..<?n])) = row_sum grad indices S r f * ?kappa" .
    with kernel_row_accumulated(1) [OF c(1,2) A3 A4 ok(2,3) _ assms(5) r, of ?st grad ?count] a r
    show ?thesis by (simp add: path)
  qed
  show "count_list (gw_writes (sort_grouped_path sort_by_key grad indices NW S pad scale)) ?a =
      (if r = pad then 0 else count_list indices r)"
  proof (cases "r = pad \<or> r \<notin> set si")
    case True
    with kernel_row_unchanged [OF c(1,2) A3 ok(2) assms(3,5) True, of _ oi grad ?st ?count] set_eq
    show ?thesis by (auto simp: path)
  next
    case False
    then have r: "r \<noteq> pad" "r \<in> set si" by auto
    from kernel_row_accumulated(2) [OF c(1,2) A3 A4 ok(2,3) _ assms(5) r, of ?st grad ?count] r
      count_list_mset [OF c(4)]
    show ?thesis by (simp add: path)
  qed
qed







subsection \<open>The row norm and the rescaling of \<^verbatim>\<open>renorm_kernel\<close>\<close>

text \<open>Accumulator values under addition are a commutative monoid.\<close>

instantiation acc :: comm_monoid_add
begin

definition zero_acc :: acc where
  "zero_acc = Fin 0"

definition plus_acc :: "acc \<Rightarrow> acc \<Rightarrow> acc" where
  "plus_acc a b = acc_add a b"

instance
proof
  fix a b c :: acc
  show "a + b + c = a + (b + c)"
    unfolding plus_acc_def by (cases a; cases b; cases c) auto
  show "a + b = b + a"
    unfolding plus_acc_def by (cases a; cases b) auto
  show "0 + a = a"
    unfolding plus_acc_def zero_acc_def by (cases a) auto
qed

end

lemma foldl_plus_sum_list: "foldl (+) a xs = a + sum_list (xs :: acc list)"
  by (induction xs arbitrary: a) (auto simp: add.assoc)

lemma reduceBlock_sum_list: "reduceBlock vs = sum_list vs"
proof -
  have "reduceBlock vs = foldl (+) 0 vs"
    unfolding reduceBlock_def zero_acc_def plus_acc_def [abs_def] ..
  then show ?thesis by (simp add: foldl_plus_sum_list)
qed

text \<open>A strided loop visits the indices of its residue class, each once.\<close>

lemma stride_class_step:
  assumes "0 < (B :: nat)" "i < n"
  shows "{j. i \<le> j \<and> j < n \<and> j mod B = i mod B} =
         insert i {j. i + B \<le> j \<and> j < n \<and> j mod B = (i + B) mod B}"
proof -
  have "i + B \<le> j" if "i \<le> j" "j \<noteq> i" "j mod B = i mod B" for j
  proof -
    have "B dvd j - i" using that(1,3) by (simp add: mod_eq_dvd_iff_nat)
    moreover have "0 < j - i" using that(1,2) by simp
    ultimately have "B \<le> j - i" by (rule dvd_imp_le)
    then show ?thesis using that(1) by simp
  qed
  then show ?thesis using assms by auto
qed

lemma for_loop_sum:
  assumes "0 < B"
  shows "for_loop i n B (\<lambda>j v. acc_add v (g j)) v =
         v + sum g {j. i \<le> j \<and> j < n \<and> j mod B = i mod B}"
proof (induction "n - i" arbitrary: i v rule: less_induct)
  case less
  show ?case
  proof (cases "i < n")
    case True
    have fin: "finite {j. i + B \<le> j \<and> j < n \<and> j mod B = (i + B) mod B}" by simp
    have notin: "i \<notin> {j. i + B \<le> j \<and> j < n \<and> j mod B = (i + B) mod B}"
      using assms by simp
    have "n - (i + B) < n - i" using True assms by simp
    from less [OF this, of "acc_add v (g i)"] show ?thesis
      by (subst for_loop.simps)
        (simp add: True assms stride_class_step [OF assms True] sum.insert [OF fin notin]
          plus_acc_def [symmetric] add.assoc del: mod_add_self2)
  next
    case False
    then have "sum g {j. i \<le> j \<and> j < n \<and> j mod B = i mod B} = 0"
      by (intro sum.neutral) auto
    moreover have "for_loop i n B (\<lambda>j v. acc_add v (g j)) v = v"
      using False by (subst for_loop.simps) simp
    ultimately show ?thesis by simp
  qed
qed

lemma block_sum:
  assumes "0 < B"
  shows "reduceBlock (map (\<lambda>tid. for_loop tid n B (\<lambda>j v. acc_add v (g j)) (Fin 0)) [0..<B]) =
         sum g {..<n}"
proof -
  have cls: "{j. tid \<le> j \<and> j < n \<and> j mod B = tid} = {j. j < n \<and> j mod B = tid}" for tid
    by auto
  have "reduceBlock (map (\<lambda>tid. for_loop tid n B (\<lambda>j v. acc_add v (g j)) (Fin 0)) [0..<B]) =
      (\<Sum>tid\<leftarrow>[0..<B]. sum g {j. tid \<le> j \<and> j < n \<and> j mod B = tid mod B})"
    by (simp add: reduceBlock_sum_list for_loop_sum [OF assms] zero_acc_def [symmetric])
  also have "\<dots> = (\<Sum>tid\<in>{..<B}. sum g {j. tid \<le> j \<and> j < n \<and> j mod B = tid mod B})"
    by (simp add: sum_list_distinct_conv_sum_set atLeast0LessThan)
  also have "\<dots> = (\<Sum>tid\<in>{..<B}. sum g {j \<in> {..<n}. j mod B = tid})"
    by (rule sum.cong) (simp_all add: cls)
  also have "\<dots> = sum g {..<n}"
    by (rule sum.group) (use assms in auto)
  finally show ?thesis .
qed

lemma block_norm_sum:
  assumes "0 < B"
  shows "block_norm B dim' base_index norm_type weights =
         std_pow (\<Sum>i<dim'. norm_term norm_type (weights ! nat (base_index + int i)))
           (acc_inverse norm_type)"
  unfolding block_norm_def Let_def by (simp only: block_sum [OF assms])


lemma for_loop_update_length:
  "length (for_loop i n B (\<lambda>j w. w[b + j := w ! (b + j) * f]) w) = length (w :: real list)"
proof (induction "n - i" arbitrary: i w rule: less_induct)
  case less
  show ?case
  proof (cases "i < n \<and> 0 < B")
    case True
    then have "n - (i + B) < n - i" by arith
    from less [OF this] True show ?thesis by (subst for_loop.simps) simp
  next
    case False
    then show ?thesis by (subst for_loop.simps) auto
  qed
qed

lemma for_loop_update_nth:
  assumes "0 < B" "a < length w"
  shows "for_loop i n B (\<lambda>j w. w[b + j := w ! (b + j) * f]) w ! a =
         (if \<exists>j. i \<le> j \<and> j < n \<and> j mod B = i mod B \<and> a = b + j then w ! a * f else w ! a)"
  using assms(2)
proof (induction "n - i" arbitrary: i w rule: less_induct)
  case less
  show ?case
  proof (cases "i < n")
    case True
    let ?w1 = "w[b + i := w ! (b + i) * f]"
    define P where "P \<longleftrightarrow> (\<exists>j. i \<le> j \<and> j < n \<and> j mod B = i mod B \<and> a = b + j)"
    define Q where "Q \<longleftrightarrow> (\<exists>j. i + B \<le> j \<and> j < n \<and> j mod B = (i + B) mod B \<and> a = b + j)"
    have lt: "n - (i + B) < n - i" using True assms(1) by arith
    have a1: "a < length ?w1" using less.prems by simp
    have cls: "P \<longleftrightarrow> a = b + i \<or> Q"
      unfolding P_def Q_def
      using stride_class_step [OF assms(1) True] by (auto simp del: mod_add_self2)
    have ex: "a = b + i \<Longrightarrow> \<not> Q"
      unfolding Q_def using assms(1) by auto
    have unfold: "for_loop i n B (\<lambda>j w. w[b + j := w ! (b + j) * f]) w =
        for_loop (i + B) n B (\<lambda>j w. w[b + j := w ! (b + j) * f]) ?w1"
      using True assms(1) by (subst for_loop.simps) simp
    have IH: "for_loop (i + B) n B (\<lambda>j w. w[b + j := w ! (b + j) * f]) ?w1 ! a =
        (if Q then ?w1 ! a * f else ?w1 ! a)"
      unfolding Q_def by (rule less.hyps [OF lt a1])
    have w1: "?w1 ! a = (if a = b + i then w ! a * f else w ! a)"
      using less.prems by (auto simp: nth_list_update)
    have "for_loop i n B (\<lambda>j w. w[b + j := w ! (b + j) * f]) w ! a =
        (if P then w ! a * f else w ! a)"
      unfolding unfold IH w1 using cls ex by auto
    then show ?thesis unfolding P_def .
  next
    case False
    then show ?thesis by (subst for_loop.simps) auto
  qed
qed

lemma rescale_row_length:
  "length (rescale_row B dim' base_index factor weights) = length weights"
proof -
  have "length (foldl (\<lambda>w tid. for_loop tid dim' B
      (\<lambda>i w. w[nat (base_index + int i) := w ! nat (base_index + int i) * factor]) w) w0 ts) =
      length w0" for w0 ts
  proof (induction ts arbitrary: w0)
    case Nil
    then show ?case by simp
  next
    case (Cons t ts)
    have "length (for_loop t dim' B
        (\<lambda>i w. w[nat (base_index + int i) := w ! nat (base_index + int i) * factor]) w0) = length w0"
    proof (induction "dim' - t" arbitrary: t w0 rule: less_induct)
      case less
      show ?case
      proof (cases "t < dim' \<and> 0 < B")
        case True
        then have "dim' - (t + B) < dim' - t" by arith
        from less [OF this] True show ?thesis by (subst for_loop.simps) simp
      next
        case False
        then show ?thesis by (subst for_loop.simps) auto
      qed
    qed
    with Cons show ?case by simp
  qed
  then show ?thesis by (simp add: rescale_row_def)
qed

lemma rescale_row_nth:
  assumes "0 < B" "0 \<le> base_index" "a < length weights"
  shows "rescale_row B dim' base_index factor weights ! a =
         (if \<exists>j<dim'. a = nat base_index + j then weights ! a * factor else weights ! a)"
proof -
  let ?b = "nat base_index"
  let ?body = "\<lambda>w tid. for_loop tid dim' B (\<lambda>j w. w[?b + j := w ! (?b + j) * factor]) w"
  have adr: "nat (base_index + int i) = ?b + i" for i
    using assms(2) by (simp add: nat_add_distrib)
  have pre: "k \<le> B \<Longrightarrow>
      length (foldl ?body weights [0..<k]) = length weights \<and>
      foldl ?body weights [0..<k] ! a =
        (if \<exists>j<dim'. j mod B < k \<and> a = ?b + j then weights ! a * factor else weights ! a)" for k
  proof (induction k)
    case 0
    then show ?case by simp
  next
    case (Suc k)
    let ?w = "foldl ?body weights [0..<k]"
    from Suc have IH: "length ?w = length weights"
        "?w ! a = (if \<exists>j<dim'. j mod B < k \<and> a = ?b + j then weights ! a * factor
                   else weights ! a)"
      by auto
    have k: "k < B" using Suc.prems by simp
    have a: "a < length ?w" using IH(1) assms(3) by simp
    have cls: "(\<exists>j. k \<le> j \<and> j < dim' \<and> j mod B = k mod B \<and> a = ?b + j) \<longleftrightarrow>
        (\<exists>j<dim'. j mod B = k \<and> a = ?b + j)"
      using k by (auto intro: order_trans [OF _ mod_less_eq_dividend])
    have split: "(\<exists>j<dim'. j mod B < Suc k \<and> a = ?b + j) \<longleftrightarrow>
        (\<exists>j<dim'. j mod B < k \<and> a = ?b + j) \<or> (\<exists>j<dim'. j mod B = k \<and> a = ?b + j)"
      by (auto simp: less_Suc_eq)
    have excl: "\<not> ((\<exists>j<dim'. j mod B < k \<and> a = ?b + j) \<and> (\<exists>j<dim'. j mod B = k \<and> a = ?b + j))"
      by auto
    have "foldl ?body weights [0..<Suc k] ! a = ?body ?w k ! a" by simp
    also have "\<dots> = (if \<exists>j<dim'. j mod B = k \<and> a = ?b + j then ?w ! a * factor else ?w ! a)"
      using for_loop_update_nth [OF assms(1) a, of k dim' ?b factor] cls by simp
    also have "\<dots> = (if \<exists>j<dim'. j mod B < Suc k \<and> a = ?b + j then weights ! a * factor
        else weights ! a)"
      using IH(2) split excl by auto
    finally show ?case using IH(1) by (simp add: for_loop_update_length)
  qed
  have "(\<exists>j<dim'. j mod B < B \<and> a = ?b + j) \<longleftrightarrow> (\<exists>j<dim'. a = ?b + j)"
    using assms(1) by auto
  with pre [of B] show ?thesis by (simp add: rescale_row_def adr)
qed

text \<open>
  The table by rows, and what one block of \<^verbatim>\<open>renorm_kernel\<close> does to its row, as functions on
  the row alone.
\<close>

definition table_row :: "real list \<Rightarrow> nat \<Rightarrow> nat \<Rightarrow> real list" where
  "table_row W D r = map (\<lambda>j. W ! (r * D + j)) [0..<D]"

definition row_norm :: "real \<Rightarrow> real list \<Rightarrow> acc" where
  "row_norm p xs = std_pow (sum_list (map (norm_term p) xs)) (acc_inverse p)"

definition renorm_row :: "real \<Rightarrow> real \<Rightarrow> real list \<Rightarrow> real list" where
  "renorm_row max_norm p xs =
     (case row_norm p xs of
        Fin n \<Rightarrow> if n > max_norm then map (\<lambda>x. x * (max_norm / (n + norm_eps))) xs else xs
      | PInf \<Rightarrow> map (\<lambda>x. x * 0) xs
      | NaN \<Rightarrow> xs)"

lemma table_row_length [simp]: "length (table_row W D r) = D"
  by (simp add: table_row_def)

lemma table_row_nth [simp]: "j < D \<Longrightarrow> table_row W D r ! j = W ! (r * D + j)"
  by (simp add: table_row_def)

lemma cell_in_table: "r < NW \<Longrightarrow> j < D \<Longrightarrow> r * D + j < NW * (D :: nat)"
proof -
  assume "r < NW" "j < D"
  then have "r + 1 \<le> NW" by simp
  then have "(r + 1) * D \<le> NW * D" by (rule mult_le_mono1)
  with \<open>j < D\<close> show ?thesis by simp
qed

lemma renorm_kernel_block_rows:
  assumes "0 < B" "0 \<le> us ! bx" "us ! bx < int NW" "int NW * int D < 2 ^ 31"
    and "length W = NW * D"
  shows "length (renorm_kernel_block W us mx p D B bx) = NW * D"
    and "r < NW \<Longrightarrow> table_row (renorm_kernel_block W us mx p D B bx) D r =
           (if int r = us ! bx then renorm_row mx p (table_row W D r) else table_row W D r)"
proof -
  define R where "R = nat (us ! bx)"
  define b where "b = R * D"
  have u: "us ! bx = int R" using assms(2) by (simp add: R_def)
  have "int R * int D \<le> int NW * int D" using assms(3) u by (intro mult_right_mono) auto
  then have "int R * int D < 2 ^ 31" using assms(4) by linarith
  moreover have "- (2 ^ 31) \<le> int R * int D"
    by (rule order_trans [of _ 0]) simp_all
  ultimately have "int32 (int R * int D) = int R * int D"
    by (intro int32_id)
  then have base: "int32 (us ! bx * int D) = int b" by (simp add: u b_def)
  have norm: "block_norm B D (int b) p W = row_norm p (table_row W D R)"
  proof -
    have "sum_list (map (norm_term p) (table_row W D R)) = (\<Sum>i<D. norm_term p (W ! (b + i)))"
      by (simp add: table_row_def comp_def sum_list_distinct_conv_sum_set atLeast0LessThan b_def)
    then show ?thesis
      by (simp add: block_norm_sum [OF assms(1)] row_norm_def nat_add_distrib)
  qed
  have rows: "table_row (rescale_row B D (int b) c W) D r =
      (if r = R then map (\<lambda>x. x * c) (table_row W D r) else table_row W D r)"
    if "r < NW" for c r
  proof (rule nth_equalityI)
    show "length (table_row (rescale_row B D (int b) c W) D r) =
        length (if r = R then map (\<lambda>x. x * c) (table_row W D r) else table_row W D r)"
      by simp
    fix j assume "j < length (table_row (rescale_row B D (int b) c W) D r)"
    then have j: "j < D" by simp
    have a: "r * D + j < length W" using cell_in_table [OF that j] assms(5) by simp
    have "(\<exists>j'<D. r * D + j = b + j') \<longleftrightarrow> r = R"
      unfolding b_def using address_unique [of r D j R] j by auto
    then show "table_row (rescale_row B D (int b) c W) D r ! j =
        (if r = R then map (\<lambda>x. x * c) (table_row W D r) else table_row W D r) ! j"
      using j rescale_row_nth [OF assms(1) _ a, of "int b" D c] by simp
  qed
  have eq: "int r = us ! bx \<longleftrightarrow> r = R" for r by (simp add: u)
  show "length (renorm_kernel_block W us mx p D B bx) = NW * D"
    by (simp add: renorm_kernel_block_def Let_def base norm rescale_row_length assms(5)
        split: acc.split)
  show "table_row (renorm_kernel_block W us mx p D B bx) D r =
      (if int r = us ! bx then renorm_row mx p (table_row W D r) else table_row W D r)" if "r < NW"
    using rows [OF that]
    by (auto simp add: renorm_kernel_block_def Let_def base norm renorm_row_def eq
        split: acc.split)
qed

lemma renorm_kernel_rows:
  assumes "0 < B" "list_all (\<lambda>u. 0 \<le> u \<and> u < int NW) us" "int NW * int D < 2 ^ 31"
    and "length W = NW * D"
  shows "length (renorm_kernel (length us) B W us mx p D) = NW * D"
    and "r < NW \<Longrightarrow> table_row (renorm_kernel (length us) B W us mx p D) D r =
           (renorm_row mx p ^^ count_list us (int r)) (table_row W D r)"
proof -
  let ?step = "\<lambda>w bx. renorm_kernel_block w us mx p D B bx"
  have pre: "k \<le> length us \<Longrightarrow>
      length (foldl ?step W [0..<k]) = NW * D \<and>
      (\<forall>r<NW. table_row (foldl ?step W [0..<k]) D r =
         (renorm_row mx p ^^ count_list (take k us) (int r)) (table_row W D r))" for k
  proof (induction k)
    case 0
    then show ?case using assms(4) by simp
  next
    case (Suc k)
    then have k: "k < length us" by simp
    let ?w = "foldl ?step W [0..<k]"
    from Suc have IH: "length ?w = NW * D"
        "\<forall>r<NW. table_row ?w D r =
           (renorm_row mx p ^^ count_list (take k us) (int r)) (table_row W D r)"
      by auto
    have u: "0 \<le> us ! k" "us ! k < int NW"
      using assms(2) k by (auto simp: list_all_length)
    note b = renorm_kernel_block_rows [OF assms(1) u assms(3) IH(1), where mx = mx and p = p]
    have tk: "take (Suc k) us = take k us @ [us ! k]"
      using k by (simp add: take_Suc_conv_app_nth)
    show ?case
      using b IH(2) by (auto simp add: tk)
  qed
  from pre [of "length us"] show "length (renorm_kernel (length us) B W us mx p D) = NW * D"
    and "r < NW \<Longrightarrow> table_row (renorm_kernel (length us) B W us mx p D) D r =
           (renorm_row mx p ^^ count_list us (int r)) (table_row W D r)"
    by (simp_all add: renorm_kernel_def)
qed

text \<open>
  The inputs on which \<^verbatim>\<open>embedding_renorm_cuda_\<close> is defined: the checks pass, the index
  list is of type Long, the table has the elements of its shape, every index is a row of
  the table, and the sizes are within the 32-bit \<^verbatim>\<open>int\<close> in which the kernel computes.
\<close>

definition renorm_input_ok :: "real tensor \<Rightarrow> int tensor \<Rightarrow> bool" where
  "renorm_input_ok self indices =
     (embedding_renorm_checks self indices = None \<and>
      scalar_type indices = kLong \<and>
      length (elems self) = sizes self ! 0 * sizes self ! 1 \<and>
      list_all (\<lambda>i. 0 \<le> i \<and> i < int (sizes self ! 0)) (elems indices) \<and>
      int (sizes self ! 0) * int (sizes self ! 1) < 2 ^ 31 \<and>
      int (sizes self ! 1) < 2 ^ 31 \<and>
      int (length (elems indices)) < 2 ^ 31)"

lemma embedding_renorm_rows:
  assumes "renorm_input_ok self indices"
  shows "\<exists>W. embedding_renorm_cuda self indices mx p = Inr (self\<lparr>elems := W\<rparr>) \<and>
           length W = sizes self ! 0 * sizes self ! 1 \<and>
           (\<forall>r < sizes self ! 0. table_row W (sizes self ! 1) r =
              (renorm_row mx p ^^ count_list (unique_copy (elems indices)) (int r))
                (table_row (elems self) (sizes self ! 1) r))"
proof -
  let ?us = "unique_copy (elems indices)"
  let ?NW = "sizes self ! 0" and ?D = "sizes self ! 1"
  from assms have ok: "embedding_renorm_checks self indices = None"
      "length (elems self) = ?NW * ?D"
      "list_all (\<lambda>i. 0 \<le> i \<and> i < int ?NW) (elems indices)"
      "int ?NW * int ?D < 2 ^ 31" "int ?D < 2 ^ 31" "int (length (elems indices)) < 2 ^ 31"
    by (auto simp: renorm_input_ok_def)
  have "length ?us \<le> length (elems indices)"
    by (simp add: unique_copy_def remdups_adj_length)
  then have "int (length ?us) < 2 ^ 31" using ok(6) by linarith
  then have g: "nat (int32 (int (length ?us))) = length ?us"
    by (subst int32_id) auto
  have d: "nat (int32 (int ?D)) = ?D" using ok(5) by (subst int32_id) auto
  have us: "list_all (\<lambda>u. 0 \<le> u \<and> u < int ?NW) ?us"
    using ok(3) by (simp add: unique_copy_def list_all_iff)
  let ?W = "renorm_kernel (length ?us) 128 (elems self) ?us mx p ?D"
  have "embedding_renorm_cuda self indices mx p = Inr (self\<lparr>elems := ?W\<rparr>)"
    using g d assms
    by (simp add: embedding_renorm_cuda_def ok(1) Let_def data_int64_def renorm_input_ok_def)
  moreover note renorm_kernel_rows [OF _ us ok(4) ok(2), where B = 128 and mx = mx and p = p]
  ultimately show ?thesis by auto
qed

lemma single_row_table:
  assumes "length W = D"
  shows "table_row W D 0 = W"
  using assms by (intro nth_equalityI) auto

lemma embedding_renorm_single_row:
  assumes "renorm_input_ok self indices" "sizes self ! 0 = 1" "elems indices = [0]"
  shows "embedding_renorm_cuda self indices mx p =
         Inr (self\<lparr>elems := renorm_row mx p (elems self)\<rparr>)"
proof -
  from embedding_renorm_rows [OF assms(1), of mx p] obtain W where
    W: "embedding_renorm_cuda self indices mx p = Inr (self\<lparr>elems := W\<rparr>)"
      "length W = sizes self ! 0 * sizes self ! 1"
      "\<forall>r < sizes self ! 0. table_row W (sizes self ! 1) r =
         (renorm_row mx p ^^ count_list (unique_copy (elems indices)) (int r))
           (table_row (elems self) (sizes self ! 1) r)"
    by blast
  have l: "length (elems self) = sizes self ! 1"
    using assms(1,2) by (simp add: renorm_input_ok_def)
  have "table_row W (sizes self ! 1) 0 = renorm_row mx p (table_row (elems self) (sizes self ! 1) 0)"
    using W(3) assms(2,3) by (simp add: unique_copy_def)
  then have "W = renorm_row mx p (elems self)"
    using W(2) assms(2) l by (simp add: single_row_table)
  with W(1) show ?thesis by simp
qed

text \<open>
  Claim C5 at the table with the single row \<open>[3, -2]\<close>, \<open>max_norm = 3\<close> and \<open>p = 3\<close>: the kernel's
  norm is the cube root of \<open>27 - 8 = 19\<close>, below 3, and the row stays as it is; its 3-norm
  is the cube root of \<open>27 + 8 = 35\<close>, above \<open>max_norm\<close>.
\<close>

theorem C5_row_left_above_max_norm:
  "embedding_renorm_cuda
     \<lparr>scalar_type = kFloat, contiguous = True, device_of = CUDA 0, sizes = [1, 2], elems = [3, -2]\<rparr>
     \<lparr>scalar_type = kLong, contiguous = True, device_of = CUDA 0, sizes = [1], elems = [0]\<rparr>
     3 3 =
   Inr \<lparr>scalar_type = kFloat, contiguous = True, device_of = CUDA 0, sizes = [1, 2],
        elems = [3, -2]\<rparr> \<and>
   3 < p_norm 3 [3, -2]"
proof -
  let ?I = "\<lparr>scalar_type = kLong, contiguous = True, device_of = CUDA 0, sizes = [1],
             elems = [0::int]\<rparr>"
  let ?T = "\<lparr>scalar_type = kFloat, contiguous = True, device_of = CUDA 0, sizes = [1, 2],
             elems = [3, -2 :: real]\<rparr>"
  have ok: "renorm_input_ok ?T ?I"
    by (simp add: renorm_input_ok_def embedding_renorm_checks_def checkContiguous_def checkDim_def
        checkSameGPU_def)
  have cube: "(27::real) powr (1 / 3) = 3"
  proof -
    have "(27::real) powr (1 / 3) = (3 powr 3) powr (1 / 3)" by simp
    also have "\<dots> = 3" by (simp only: powr_powr) simp
    finally show ?thesis .
  qed
  have "(19::real) powr (1 / 3) \<le> 27 powr (1 / 3)" by (rule powr_mono2) simp_all
  then have le: "\<not> 3 < (19::real) powr (1 / 3)" using cube by simp
  have "(27::real) powr (1 / 3) < 35 powr (1 / 3)" by (rule powr_less_mono2) simp_all
  then have gt: "3 < (35::real) powr (1 / 3)" using cube by simp
  have n: "row_norm 3 [3, -2] = Fin (19 powr (1 / 3))"
    by (simp add: row_norm_def norm_term_def acc_inverse_def pow_fin_def zero_acc_def plus_acc_def)
  have r: "renorm_row 3 3 [3, -2] = [3, -2]"
    using le by (simp add: renorm_row_def n)
  have "embedding_renorm_cuda ?T ?I 3 3 = Inr ?T"
    using embedding_renorm_single_row [OF ok, of 3 3] by (simp add: r)
  moreover have "3 < p_norm 3 [3, -2]"
    using gt by (simp add: p_norm_def)
  ultimately show ?thesis by simp
qed

subsection \<open>The Direct Lane-Reduction kernel: subscripts of the index buffer\<close>

lemma for_loop_invariant:
  assumes "\<And>i s. i0 \<le> i \<Longrightarrow> i < n \<Longrightarrow> P s \<Longrightarrow> P (body i s)" "P s"
  shows "P (for_loop i0 n step body s)"
  using assms
proof (induction "n - i0" arbitrary: i0 s rule: less_induct)
  case less
  show ?case
  proof (cases "i0 < n \<and> 0 < step")
    case True
    then have lt: "n - (i0 + step) < n - i0" by arith
    have "P (for_loop (i0 + step) n step body (body i0 s))"
    proof (rule less.hyps [OF lt])
      show "P (body i0 s)" using less.prems True by simp
      show "P (body i s)" if "i0 + step \<le> i" "i < n" "P s" for i s
        using less.prems(1) [of i s] that by simp
    qed
    then show ?thesis using True by (subst for_loop.simps) simp
  next
    case False
    then show ?thesis using less.prems(2) by (subst for_loop.simps) auto
  qed
qed

lemma foldl_invariant:
  assumes "\<And>t s. t \<in> set ts \<Longrightarrow> P s \<Longrightarrow> P (step s t)" "P s"
  shows "P (foldl step s ts)"
  using assms by (induction ts arbitrary: s) auto

lemma set_block_threads:
  "(tx, ty) \<in> set (block_threads bd) \<longleftrightarrow> tx < fst bd \<and> ty < snd bd"
  by (auto simp: block_threads_def)

lemma distinct_block_threads: "distinct (block_threads bd)"
  by (auto simp: block_threads_def distinct_map distinct_product inj_on_def)

lemma load_index_subscripts:
  assumes "list_all (\<lambda>i. i < L) (subscripts st)" "fst t < 32" "snd t < 32" "1024 \<le> L"
  shows "list_all (\<lambda>i. i < L) (subscripts (load_index indices n (32, 32) bs t st))"
  using assms by (auto simp: load_index_def Let_def)

lemma stage_grad_subscripts:
  assumes "list_all (\<lambda>i. i < L) (subscripts st)" "snd t < 32" "cs - bs + 31 < L" "bs \<le> cs"
  shows "list_all (\<lambda>i. i < L) (subscripts (stage_grad grad n stride pad bx bd bs cs t st))"
  using assms by (auto simp: stage_grad_def Let_def)

lemma lead_accumulate_subscripts:
  assumes "list_all (\<lambda>i. i < L) (subscripts st)" "fst t < 32" "cs - bs + 31 < L"
  shows "list_all (\<lambda>i. i < L) (subscripts (lead_accumulate n stride pad bx bd bs cs t st))"
  using assms by (auto simp: lead_accumulate_def Let_def)

lemma feature_block_subscripts:
  assumes "list_all (\<lambda>i. i < 1024) (subscripts st)" "n \<le> 768"
  shows "list_all (\<lambda>i. i < 1024) (subscripts (feature_block indices grad n stride pad bx (32, 32) st))"
  unfolding feature_block_def
proof (rule for_loop_invariant [where P = "\<lambda>s. list_all (\<lambda>i. i < 1024) (subscripts s)", OF _ assms(1)])
  fix bs :: nat and s :: block_state
  assume bs: "0 \<le> bs" "bs < n" and s: "list_all (\<lambda>i. i < 1024) (subscripts s)"
  let ?P = "\<lambda>s. list_all (\<lambda>i. i < 1024) (subscripts s)"
  have loaded: "?P (foldl (\<lambda>st t. load_index indices n (32, 32) bs t st) s (block_threads (32, 32)))"
    by (rule foldl_invariant [where P = ?P, OF _ s])
      (auto intro!: load_index_subscripts simp: set_block_threads)
  show "?P (for_loop bs n (snd (32, 32))
      (\<lambda>chunk_start st.
         foldl (\<lambda>st t. lead_accumulate n stride pad bx (32, 32) bs chunk_start t st)
           (foldl (\<lambda>st t. stage_grad grad n stride pad bx (32, 32) bs chunk_start t st)
              st (block_threads (32, 32)))
           (block_threads (32, 32)))
      (foldl (\<lambda>st t. load_index indices n (32, 32) bs t st) s (block_threads (32, 32))))"
  proof (rule for_loop_invariant [where P = ?P, OF _ loaded])
    fix cs :: nat and s :: block_state
    assume cs: "bs \<le> cs" "cs < n" and s: "?P s"
    have b: "cs - bs + 31 < 1024" using cs assms(2) by simp
    have staged: "?P (foldl (\<lambda>st t. stage_grad grad n stride pad bx (32, 32) bs cs t st)
        s (block_threads (32, 32)))"
      by (rule foldl_invariant [where P = ?P, OF _ s])
        (use b cs in \<open>auto intro!: stage_grad_subscripts simp: set_block_threads\<close>)
    show "?P (foldl (\<lambda>st t. lead_accumulate n stride pad bx (32, 32) bs cs t st)
        (foldl (\<lambda>st t. stage_grad grad n stride pad bx (32, 32) bs cs t st)
           s (block_threads (32, 32)))
        (block_threads (32, 32)))"
      by (rule foldl_invariant [where P = ?P, OF _ staged])
        (use b in \<open>auto intro!: lead_accumulate_subscripts simp: set_block_threads\<close>)
  qed
qed

lemma feature_kernel_subscripts:
  assumes "n \<le> 768"
  shows "list_all (\<lambda>i. i < 1024)
     (snd (embedding_backward_feature_kernel g (32, 32) sz shared0 indices grad gw n stride pad))"
  unfolding embedding_backward_feature_kernel_def
  by (rule foldl_invariant [where P = "\<lambda>gl. list_all (\<lambda>i. i < 1024) (snd gl)"])
    (auto simp: Let_def intro!: feature_block_subscripts assms)

text \<open>
  Claim C10. On every launch of the Direct Lane-Reduction kernel that the dispatcher
  produces (it selects the kernel only for at most 768 indices), every subscript applied
  to \<^verbatim>\<open>indices_batch\<close> (the load of line 48, the read of line 60 and the read of line 76)
  is below the \<open>WARP_SIZE * BLOCKDIMY = 1024\<close> slots the launch allocates.
\<close>

theorem C10_index_buffer_in_bounds:
  assumes "select_accumulator (length indices) scale_grad_by_freq = Direct"
  shows "list_all (\<lambda>i. i < WARP_SIZE * BLOCKDIMY)
           (snd (direct_path shared0 grad indices num_weights stride padding_idx))"
proof -
  from assms have n: "length indices \<le> 768"
    by (auto simp: select_accumulator_def split: if_splits)
  then have "int32 (int (length indices)) = int (length indices)"
    by (intro int32_id) auto
  then have "nat (int32 (int (length indices))) = length indices" by simp
  with feature_kernel_subscripts [OF n] show ?thesis
    by (simp add: direct_path_def WARP_SIZE_def BLOCKDIMY_def)
qed

theorem C10_index_buffer_in_bounds_witness:
  "select_accumulator (length [0, 2, 0 :: int]) False = Direct \<and>
   list_all (\<lambda>i. i < WARP_SIZE * BLOCKDIMY)
     (snd (direct_path (\<lambda>bx. (\<lambda>i. 0, \<lambda>i. 0)) [1, 2, 3, 4, 5, 6, 7, 8, 9] [0, 2, 0] 3 3 (- 1)))"
  using C10_index_buffer_in_bounds [of "[0, 2, 0]" False "\<lambda>bx. (\<lambda>i. 0, \<lambda>i. 0)"
      "[1, 2, 3, 4, 5, 6, 7, 8, 9]" 3 3 "- 1"]
  by (simp add: select_accumulator_def)

subsection \<open>The Direct Lane-Reduction kernel: the value of the table\<close>

lemma bit_WARP_BALLOT: "bit (WARP_BALLOT p) l \<longleftrightarrow> l < 32 \<and> p l"
  by (auto simp: WARP_BALLOT_def bit_horner_sum_bit_word_iff simp del: upt_rec_numeral)

lemma finite_mask_bits: "finite {l. bit (m :: 32 word) l}"
proof (rule finite_subset)
  show "{l. bit m l} \<subseteq> {..<32}" using bit_imp_le_length [of m] by auto
qed simp

lemma accumulate_peers_length: "length (accumulate_peers my_s tx m sm) = length sm"
proof (induction "length (filter (bit m) [0..<32])" arbitrary: m sm rule: less_induct)
  case less
  show ?case
  proof (cases "m = 0")
    case True
    then show ?thesis by (subst accumulate_peers.simps) simp
  next
    case False
    from less [OF mask_loop_decreases [OF False]] False show ?thesis
      by (subst accumulate_peers.simps) (simp add: Let_def)
  qed
qed

lemma accumulate_peers_effect:
  assumes "\<forall>l. bit m l \<longrightarrow> l \<noteq> ty" "32 * ty + tx < length sm"
  shows "accumulate_peers (32 * ty) tx m sm =
    sm[32 * ty + tx := sm ! (32 * ty + tx) + (\<Sum>l | bit m l. sm ! (tx + 32 * l))]"
  using assms
proof (induction "length (filter (bit m) [0..<32])" arbitrary: m sm rule: less_induct)
  case less
  show ?case
  proof (cases "m = 0")
    case True
    then have "{l. bit m l} = {}" by simp
    then have "(\<Sum>l | bit m l. sm ! (tx + 32 * l)) = 0" by (simp only: sum.empty)
    moreover have "accumulate_peers (32 * ty) tx m sm = sm"
      using True by (subst accumulate_peers.simps) simp
    ultimately show ?thesis by (simp only: add_0_right list_update_id)
  next
    case False
    from ffs_props [OF False] obtain p where p: "p < 32" "ffs m = int p + 1" "bit m p"
      "\<forall>q<p. \<not> bit m q" by blast
    define m' where "m' = m XOR 2 ^ p"
    define sm' where "sm' = sm[32 * ty + tx := sm ! (32 * ty + tx) + sm ! (tx + 32 * p)]"
    have bits: "bit m' l \<longleftrightarrow> bit m l \<and> l \<noteq> p" for l
      unfolding m'_def by (rule bit_clear_lowest [OF p(1,3)])
    have dec: "length (filter (bit m') [0..<32]) < length (filter (bit m) [0..<32])"
      using mask_loop_decreases [OF False] p(2) by (simp add: m'_def)
    have step: "accumulate_peers (32 * ty) tx m sm = accumulate_peers (32 * ty) tx m' sm'"
      using False p(2) by (subst accumulate_peers.simps) (simp add: Let_def m'_def sm'_def WARP_SIZE_def)
    have ih: "accumulate_peers (32 * ty) tx m' sm' =
        sm'[32 * ty + tx := sm' ! (32 * ty + tx) + (\<Sum>l | bit m' l. sm' ! (tx + 32 * l))]"
      by (rule less.hyps [OF dec]) (use less.prems bits in \<open>auto simp: sm'_def\<close>)
    have own: "sm' ! (32 * ty + tx) = sm ! (32 * ty + tx) + sm ! (tx + 32 * p)"
      using less.prems(2) by (simp add: sm'_def)
    have peers: "(\<Sum>l | bit m' l. sm' ! (tx + 32 * l)) = (\<Sum>l | bit m' l. sm ! (tx + 32 * l))"
    proof (rule sum.cong [OF refl])
      fix l assume "l \<in> {l. bit m' l}"
      then have "l \<noteq> ty" using bits less.prems(1) by auto
      then have "tx + 32 * l \<noteq> 32 * ty + tx" by simp
      then show "sm' ! (tx + 32 * l) = sm ! (tx + 32 * l)" by (simp add: sm'_def)
    qed
    have set: "{l. bit m l} = insert p {l. bit m' l}" using bits p(3) by auto
    have "(\<Sum>l | bit m l. sm ! (tx + 32 * l)) =
        sm ! (tx + 32 * p) + (\<Sum>l | bit m' l. sm ! (tx + 32 * l))"
      unfolding set by (rule sum.insert) (use bits finite_mask_bits in auto)
    then show ?thesis
      unfolding step ih own peers by (simp add: sm'_def add.assoc)
  qed
qed

text \<open>
  Warp \<open>ty\<close> leads its match group in the chunk at \<open>cs\<close>: its row is within the list, is not
  the padding row, and no lower warp of the chunk has the same target.
\<close>

definition leads :: "int list \<Rightarrow> nat \<Rightarrow> int \<Rightarrow> nat \<Rightarrow> nat \<Rightarrow> bool" where
  "leads IB n pad cs ty \<longleftrightarrow>
     cs + ty < n \<and> IB ! (cs + ty) \<noteq> pad \<and> (\<forall>q<ty. IB ! (cs + q) \<noteq> IB ! (cs + ty))"

definition match_group :: "int list \<Rightarrow> nat \<Rightarrow> nat \<Rightarrow> int \<Rightarrow> nat set" where
  "match_group IB n cs R = {l. l < 32 \<and> cs + l < n \<and> IB ! (cs + l) = R}"

lemma finite_match_group: "finite (match_group IB n cs R)"
  by (rule finite_subset [of _ "{..<32}"]) (auto simp: match_group_def)

lemma ballot_leader:
  fixes IB :: "int list"
  assumes "ty < 32" "cs + ty < n"
  defines "mm \<equiv> WARP_BALLOT (\<lambda>lane.
      if lane \<ge> (if n - cs < 32 then n - cs else 32) then False
      else IB ! (cs + ty) = IB ! (cs + lane))"
  shows "int ty = ffs mm - 1 \<longleftrightarrow> (\<forall>q<ty. IB ! (cs + q) \<noteq> IB ! (cs + ty))"
    and "int ty = ffs mm - 1 \<Longrightarrow>
      {l. bit (mm XOR push_bit (nat (ffs mm - 1)) 1) l} = match_group IB n cs (IB ! (cs + ty)) - {ty}"
proof -
  have bits: "bit mm l \<longleftrightarrow> l \<in> match_group IB n cs (IB ! (cs + ty))" for l
    unfolding mm_def bit_WARP_BALLOT match_group_def by auto
  have own: "bit mm ty" using assms(1,2) by (simp add: bits match_group_def)
  then have "mm \<noteq> 0" by auto
  from ffs_props [OF this] obtain p where p: "p < 32" "ffs mm = int p + 1" "bit mm p"
    "\<forall>q<p. \<not> bit mm q" by blast
  have "ty = p \<longleftrightarrow> (\<forall>q<ty. \<not> bit mm q)"
  proof
    assume "ty = p" then show "\<forall>q<ty. \<not> bit mm q" using p(4) by simp
  next
    assume "\<forall>q<ty. \<not> bit mm q"
    then have "\<not> p < ty" using p(3) by auto
    moreover have "\<not> ty < p" using own p(4) by auto
    ultimately show "ty = p" by simp
  qed
  moreover have "(\<forall>q<ty. \<not> bit mm q) \<longleftrightarrow> (\<forall>q<ty. IB ! (cs + q) \<noteq> IB ! (cs + ty))"
    using assms(1,2) by (auto simp: bits match_group_def)
  ultimately show "int ty = ffs mm - 1 \<longleftrightarrow> (\<forall>q<ty. IB ! (cs + q) \<noteq> IB ! (cs + ty))"
    using p(2) by simp
  show "{l. bit (mm XOR push_bit (nat (ffs mm - 1)) 1) l} = match_group IB n cs (IB ! (cs + ty)) - {ty}"
    if "int ty = ffs mm - 1"
  proof -
    from that p(2) have "ty = p" by simp
    then have "bit (mm XOR push_bit (nat (ffs mm - 1)) 1) l \<longleftrightarrow> bit mm l \<and> l \<noteq> ty" for l
      using bit_clear_lowest [OF p(1,3)] p(2) by simp
    then show ?thesis using bits by auto
  qed
qed

lemma stage_grad_eq:
  assumes "S < 2 ^ 31"
  shows "stage_grad grad n (int S) pad bx (32, 32) 0 cs (tx, ty) st =
    st\<lparr>subscripts := (cs + ty) # subscripts st,
       smem := (if cs + ty < n \<and> tx + bx * 32 < S \<and> indices_batch st ! (cs + ty) \<noteq> pad
                then (smem st)[32 * ty + tx := grad ! ((cs + ty) * S + (tx + bx * 32))]
                else smem st)\<rparr>"
proof -
  have s: "int32 (int S) = int S" using assms by (intro int32_id) auto
  have a: "nat (int (cs + ty) * int S + int (tx + bx * 32)) = (cs + ty) * S + (tx + bx * 32)"
    unfolding of_nat_mult [symmetric] of_nat_add [symmetric] by (rule nat_int)
  have f: "int (tx + bx * 32) < int S \<longleftrightarrow> tx + bx * 32 < S" by (rule of_nat_less_iff)
  show ?thesis
    unfolding stage_grad_def Let_def s fst_conv snd_conv a f WARP_SIZE_def by simp
qed

lemma lead_accumulate_eq:
  fixes st :: block_state and n cs :: nat
  assumes "S < 2 ^ 31" "ty < 32" "32 * ty + tx < length (smem st)"
  defines "IB \<equiv> indices_batch st"
  defines "SM \<equiv> (smem st)[32 * ty + tx := smem st ! (32 * ty + tx) +
       (\<Sum>l \<in> match_group IB n cs (IB ! (cs + ty)) - {ty}. smem st ! (tx + 32 * l))]"
  shows "lead_accumulate n (int S) pad bx (32, 32) 0 cs (tx, ty) st =
    (if leads IB n pad cs ty
     then st\<lparr>subscripts := (cs + tx) # subscripts st, smem := SM,
             table := (if tx + bx * 32 < S
                       then (table st)[nat (IB ! (cs + ty) * int S + int (tx + bx * 32)) :=
                              table st ! nat (IB ! (cs + ty) * int S + int (tx + bx * 32)) +
                              SM ! (32 * ty + tx)]
                       else table st)\<rparr>
     else if IB ! (cs + ty) \<noteq> pad \<and> cs + ty < n
          then st\<lparr>subscripts := (cs + tx) # subscripts st\<rparr> else st)"
proof -
  have s: "int32 (int S) = int S" using assms(1) by (intro int32_id) auto
  have f: "int (tx + bx * 32) < int S \<longleftrightarrow> tx + bx * 32 < S" by (rule of_nat_less_iff)
  define mm where "mm = WARP_BALLOT (\<lambda>lane.
      if lane \<ge> (if n - cs < 32 then n - cs else 32) then False
      else IB ! (cs + ty) = IB ! (cs + lane))"
  define m' where "m' = mm XOR push_bit (nat (ffs mm - 1)) 1"
  have unfold: "lead_accumulate n (int S) pad bx (32, 32) 0 cs (tx, ty) st =
    (if IB ! (cs + ty) \<noteq> pad \<and> cs + ty < n
     then if int ty = ffs mm - 1
          then st\<lparr>subscripts := (cs + tx) # subscripts st,
                  smem := accumulate_peers (32 * ty) tx m' (smem st),
                  table := (if tx + bx * 32 < S
                       then (table st)[nat (IB ! (cs + ty) * int S + int (tx + bx * 32)) :=
                              table st ! nat (IB ! (cs + ty) * int S + int (tx + bx * 32)) +
                              accumulate_peers (32 * ty) tx m' (smem st) ! (32 * ty + tx)]
                       else table st)\<rparr>
          else st\<lparr>subscripts := (cs + tx) # subscripts st\<rparr>
     else st)"
    by (simp add: lead_accumulate_def Let_def s WARP_SIZE_def mm_def m'_def IB_def)
  show ?thesis
  proof (cases "IB ! (cs + ty) \<noteq> pad \<and> cs + ty < n")
    case False
    then have c: "(IB ! (cs + ty) \<noteq> pad \<and> cs + ty < n) = False" by blast
    have nl: "leads IB n pad cs ty = False" using False by (auto simp: leads_def)
    show ?thesis unfolding unfold c nl if_False ..
  next
    case True
    then have c: "(IB ! (cs + ty) \<noteq> pad \<and> cs + ty < n) = True" by blast
    note bl = ballot_leader [OF assms(2) conjunct2 [OF True], of IB, folded mm_def]
    have l: "leads IB n pad cs ty \<longleftrightarrow> int ty = ffs mm - 1"
      using True bl(1) by (simp add: leads_def)
    show ?thesis
    proof (cases "int ty = ffs mm - 1")
      case False
      then have e: "(int ty = ffs mm - 1) = False" by blast
      show ?thesis unfolding unfold c l e if_False if_True ..
    next
      case lead: True
      then have e: "(int ty = ffs mm - 1) = True" by blast
      from bl(2) [OF lead] have bits: "{l. bit m' l} = match_group IB n cs (IB ! (cs + ty)) - {ty}"
        by (simp add: m'_def)
      then have "\<forall>l. bit m' l \<longrightarrow> l \<noteq> ty" by auto
      from accumulate_peers_effect [OF this assms(3)]
      have "accumulate_peers (32 * ty) tx m' (smem st) = SM"
        unfolding bits SM_def .
      then show ?thesis unfolding unfold c l e if_False if_True by (simp only:)
    qed
  qed
qed

lemma foldl_one_hit:
  assumes "distinct ts" "u \<in> set ts"
    and "\<And>t s. t \<in> set ts \<Longrightarrow> I s \<Longrightarrow> I (step s t)"
    and "\<And>t s. t \<in> set ts \<Longrightarrow> t \<noteq> u \<Longrightarrow> I s \<Longrightarrow> J s \<Longrightarrow> J (step s t)"
    and "\<And>t s. t \<in> set ts \<Longrightarrow> t \<noteq> u \<Longrightarrow> I s \<Longrightarrow> val (step s t) = val s"
    and "\<And>s. I s \<Longrightarrow> J s \<Longrightarrow> val (step s u) = h (val s)"
    and "I s0" "J s0"
  shows "val (foldl step s0 ts) = h (val s0)"
proof -
  from split_list [OF assms(2)] obtain pre post where ts: "ts = pre @ u # post" by blast
  with assms(1) have n: "u \<notin> set pre" "u \<notin> set post" by auto
  have 1: "(I (foldl step s0 pre) \<and> J (foldl step s0 pre)) \<and> val (foldl step s0 pre) = val s0"
  proof (rule foldl_all_miss [where I = "\<lambda>s. I s \<and> J s"])
    show "I s0 \<and> J s0" using assms(7,8) by simp
    fix t s assume t: "t \<in> set pre" and s: "I s \<and> J s"
    from t n ts have t': "t \<in> set ts" "t \<noteq> u" by auto
    show "(I (step s t) \<and> J (step s t)) \<and> val (step s t) = val s"
      using assms(3) [OF t'(1)] assms(4) [OF t'] assms(5) [OF t'] s by simp
  qed
  then have 2: "I (step (foldl step s0 pre) u)" "val (step (foldl step s0 pre) u) = h (val s0)"
    using assms(3) [of u] assms(6) ts by auto
  have "I (foldl step (step (foldl step s0 pre) u) post) \<and>
      val (foldl step (step (foldl step s0 pre) u) post) = val (step (foldl step s0 pre) u)"
  proof (rule foldl_all_miss [where I = I])
    show "I (step (foldl step s0 pre) u)" by (rule 2)
    fix t s assume t: "t \<in> set post" and s: "I s"
    from t n ts have t': "t \<in> set ts" "t \<noteq> u" by auto
    show "I (step s t) \<and> val (step s t) = val s"
      using assms(3) [OF t'(1)] assms(5) [OF t'] s by simp
  qed
  with 2 show ?thesis by (simp add: ts)
qed

lemma slot_unique:
  assumes "32 * ty + tx = 32 * ty' + tx'" "tx < 32" "tx' < 32"
  shows "ty = ty' \<and> tx = (tx' :: nat)"
  using address_unique [of ty 32 tx ty' tx'] assms by (simp add: mult.commute)

lemma stage_phase:
  fixes s0 :: block_state and grad :: "real list" and n cs bx :: nat and pad :: int
  assumes "S < 2 ^ 31" "length (smem s0) = 1024"
  defines "s1 \<equiv> foldl (\<lambda>st t. stage_grad grad n (int S) pad bx (32, 32) 0 cs t st) s0
                   (block_threads (32, 32))"
  shows "indices_batch s1 = indices_batch s0" "table s1 = table s0" "length (smem s1) = 1024"
    and "\<And>tx ty. tx < 32 \<Longrightarrow> ty < 32 \<Longrightarrow> cs + ty < n \<Longrightarrow> tx + bx * 32 < S \<Longrightarrow>
           indices_batch s0 ! (cs + ty) \<noteq> pad \<Longrightarrow>
           smem s1 ! (32 * ty + tx) = grad ! ((cs + ty) * S + (tx + bx * 32))"
proof -
  let ?step = "\<lambda>st t. stage_grad grad n (int S) pad bx (32, 32) 0 cs t st"
  let ?I = "\<lambda>s :: block_state. indices_batch s = indices_batch s0 \<and> table s = table s0 \<and>
      length (smem s) = 1024"
  have I: "?I (?step s t)" if "?I s" for s t
    using that by (cases t) (simp add: stage_grad_eq [OF assms(1)])
  have "?I s1" unfolding s1_def
    by (rule foldl_invariant [where P = ?I]) (use I assms(2) in auto)
  then show "indices_batch s1 = indices_batch s0" "table s1 = table s0" "length (smem s1) = 1024"
    by auto
  fix tx ty :: nat
  assume t: "tx < 32" "ty < 32" and c: "cs + ty < n" "tx + bx * 32 < S"
    "indices_batch s0 ! (cs + ty) \<noteq> pad"
  show "smem s1 ! (32 * ty + tx) = grad ! ((cs + ty) * S + (tx + bx * 32))"
    unfolding s1_def
  proof (rule foldl_one_hit [where u = "(tx, ty)" and I = ?I and J = "\<lambda>s. True"
        and val = "\<lambda>s. smem s ! (32 * ty + tx)"
        and h = "\<lambda>v. grad ! ((cs + ty) * S + (tx + bx * 32))" and step = ?step])
    show "distinct (block_threads (32, 32))" by (rule distinct_block_threads)
    show "(tx, ty) \<in> set (block_threads (32, 32))" using t by (simp add: set_block_threads)
    show "?I s0" using assms(2) by simp
    show "smem (?step s (tx, ty)) ! (32 * ty + tx) = grad ! ((cs + ty) * S + (tx + bx * 32))"
      if "?I s" for s
      using that c t by (simp add: stage_grad_eq [OF assms(1)])
    show "smem (?step s u) ! (32 * ty + tx) = smem s ! (32 * ty + tx)"
      if "u \<in> set (block_threads (32, 32))" "u \<noteq> (tx, ty)" "?I s" for u s
    proof (cases u)
      case (Pair tx' ty')
      with that(1) have "tx' < 32" by (simp add: set_block_threads)
      with slot_unique [of ty' tx' ty tx] t(1) that(2) Pair
      have "32 * ty' + tx' \<noteq> 32 * ty + tx" by auto
      then show ?thesis by (simp add: Pair stage_grad_eq [OF assms(1)])
    qed
  qed (use I in auto)
qed

lemma nat_row_address:
  assumes "0 \<le> (r :: int)"
  shows "nat (r * int S + int f) = nat r * S + f"
proof -
  have "r * int S + int f = int (nat r * S + f)" using assms by simp
  then show ?thesis by (simp only: nat_int)
qed

lemma lead_accumulate_inv:
  fixes s :: block_state and n cs bx :: nat and pad :: int
  assumes "S < 2 ^ 31" "ty < 32" "tx < 32" "length (smem s) = 1024"
  defines "s' \<equiv> lead_accumulate n (int S) pad bx (32, 32) 0 cs (tx, ty) s"
  shows "indices_batch s' = indices_batch s" "length (smem s') = 1024"
    "length (table s') = length (table s)"
proof -
  have "32 * ty + tx < length (smem s)" using assms(2,3,4) by simp
  note eq = lead_accumulate_eq [OF assms(1,2) this, where n = n and cs = cs and pad = pad and bx = bx]
  show "indices_batch s' = indices_batch s" "length (smem s') = 1024"
    "length (table s') = length (table s)"
    unfolding s'_def eq using assms(4) by auto
qed

lemma lead_smem_nth:
  fixes s :: block_state
  assumes "S < 2 ^ 31" "ty < 32" "tx < 32" "length (smem s) = 1024"
    and "\<not> (leads (indices_batch s) n pad cs ty \<and> j = 32 * ty + tx)"
  shows "smem (lead_accumulate n (int S) pad bx (32, 32) 0 cs (tx, ty) s) ! j = smem s ! j"
proof -
  have "32 * ty + tx < length (smem s)" using assms(2,3,4) by simp
  note eq = lead_accumulate_eq [OF assms(1,2) this, where n = n and cs = cs and pad = pad and bx = bx]
  show ?thesis unfolding eq using assms(5) by auto
qed

lemma lead_table_nth:
  fixes s :: block_state
  assumes "S < 2 ^ 31" "ty < 32" "tx < 32" "length (smem s) = 1024"
    and "length (table s) = NW * S"
    and "\<forall>i<n. 0 \<le> indices_batch s ! i \<and> indices_batch s ! i < int NW"
    and "0 \<le> R" "R < int NW" "F < S"
  shows "table (lead_accumulate n (int S) pad bx (32, 32) 0 cs (tx, ty) s) ! (nat R * S + F) =
    (if leads (indices_batch s) n pad cs ty \<and> indices_batch s ! (cs + ty) = R \<and> tx + bx * 32 = F
     then table s ! (nat R * S + F) +
          (smem s ! (32 * ty + tx) +
           (\<Sum>l \<in> match_group (indices_batch s) n cs R - {ty}. smem s ! (tx + 32 * l)))
     else table s ! (nat R * S + F))"
proof -
  define IB where "IB = indices_batch s"
  define a where "a = nat R * S + F"
  have own: "32 * ty + tx < length (smem s)" using assms(2,3,4) by simp
  note eq = lead_accumulate_eq [OF assms(1,2) own, where n = n and cs = cs and pad = pad and bx = bx, folded IB_def]
  have "nat R < NW" using assms(7,8) by simp
  then have "Suc (nat R) * S \<le> NW * S" by (intro mult_le_mono1) simp
  then have a: "a < length (table s)" using assms(5,9) by (simp add: a_def)
  show ?thesis
  proof (cases "leads IB n pad cs ty")
    case False
    then show ?thesis unfolding eq IB_def [symmetric] by simp
  next
    case True
    then have src: "cs + ty < n" by (simp add: leads_def)
    with assms(6) have d: "0 \<le> IB ! (cs + ty)" by (simp add: IB_def)
    show ?thesis
    proof (cases "tx + bx * 32 < S")
      case False
      with assms(9) have "tx + bx * 32 \<noteq> F" by auto
      with False True show ?thesis unfolding eq IB_def [symmetric] by simp
    next
      case f: True
      have addr: "nat (IB ! (cs + ty) * int S + int (tx + bx * 32)) =
          nat (IB ! (cs + ty)) * S + (tx + bx * 32)"
        by (rule nat_row_address [OF d])
      have hit: "nat (IB ! (cs + ty)) * S + (tx + bx * 32) = a \<longleftrightarrow>
          IB ! (cs + ty) = R \<and> tx + bx * 32 = F"
      proof
        assume "nat (IB ! (cs + ty)) * S + (tx + bx * 32) = a"
        from address_unique [OF this [unfolded a_def] f assms(9)] d assms(7)
        show "IB ! (cs + ty) = R \<and> tx + bx * 32 = F" by auto
      qed (auto simp: a_def)
      show ?thesis
      proof (cases "IB ! (cs + ty) = R \<and> tx + bx * 32 = F")
        case False
        with hit have "nat (IB ! (cs + ty)) * S + (tx + bx * 32) \<noteq> a" by simp
        with False True f show ?thesis
          unfolding eq IB_def [symmetric] a_def [symmetric] addr by auto
      next
        case h: True
        with hit have e: "nat (IB ! (cs + ty)) * S + (tx + bx * 32) = a" by simp
        show ?thesis
          unfolding eq IB_def [symmetric] a_def [symmetric] addr e using True f h a own
          by simp
      qed
    qed
  qed
qed

lemma leads_least:
  assumes "leads IB n pad cs ty" "ty < 32"
  shows "ty \<in> match_group IB n cs (IB ! (cs + ty))"
    and "\<And>l. l \<in> match_group IB n cs (IB ! (cs + ty)) \<Longrightarrow> ty \<le> l"
    and "IB ! (cs + ty) \<noteq> pad"
proof -
  show "ty \<in> match_group IB n cs (IB ! (cs + ty))" "IB ! (cs + ty) \<noteq> pad"
    using assms by (auto simp: leads_def match_group_def)
  fix l assume "l \<in> match_group IB n cs (IB ! (cs + ty))"
  then have "IB ! (cs + l) = IB ! (cs + ty)" by (simp add: match_group_def)
  with assms(1) have "\<not> l < ty" by (auto simp: leads_def)
  then show "ty \<le> l" by simp
qed

lemma least_leads:
  assumes "ty \<in> match_group IB n cs R" "\<And>l. l \<in> match_group IB n cs R \<Longrightarrow> ty \<le> l" "R \<noteq> pad"
  shows "leads IB n pad cs ty" "IB ! (cs + ty) = R"
proof -
  from assms(1) have ty: "ty < 32" "cs + ty < n" "IB ! (cs + ty) = R"
    by (auto simp: match_group_def)
  show "IB ! (cs + ty) = R" by (rule ty(3))
  have "IB ! (cs + q) \<noteq> R" if "q < ty" for q
  proof
    assume "IB ! (cs + q) = R"
    with that ty have "q \<in> match_group IB n cs R" by (simp add: match_group_def)
    from assms(2) [OF this] that show False by simp
  qed
  with ty assms(3) show "leads IB n pad cs ty" by (simp add: leads_def)
qed

lemma lane_of_feature:
  assumes "tx + bx * 32 = F" "tx < 32"
  shows "tx = F mod 32" "bx = F div (32 :: nat)"
  using assms by auto

lemma lead_phase:
  fixes s1 :: block_state and n cs bx :: nat and pad :: int and grad :: "real list"
  assumes S: "S < 2 ^ 31" and len: "length (smem s1) = 1024" "length (table s1) = NW * S"
    and IB: "indices_batch s1 = IB" "\<forall>i<n. 0 \<le> IB ! i \<and> IB ! i < int NW"
    and R: "0 \<le> R" "R < int NW" "F < S"
    and staged: "\<And>l. l \<in> match_group IB n cs R \<Longrightarrow> bx = F div 32 \<Longrightarrow> R \<noteq> pad \<Longrightarrow>
        smem s1 ! (32 * l + F mod 32) = grad ! ((cs + l) * S + F)"
  defines "s2 \<equiv> foldl (\<lambda>st t. lead_accumulate n (int S) pad bx (32, 32) 0 cs t st) s1
                   (block_threads (32, 32))"
  shows "indices_batch s2 = IB" "length (smem s2) = 1024" "length (table s2) = NW * S"
    and "table s2 ! (nat R * S + F) = table s1 ! (nat R * S + F) +
       (if bx = F div 32 \<and> R \<noteq> pad
        then \<Sum>l \<in> match_group IB n cs R. grad ! ((cs + l) * S + F) else 0)"
proof -
  let ?step = "\<lambda>st t. lead_accumulate n (int S) pad bx (32, 32) 0 cs t st"
  let ?ts = "block_threads (32, 32)"
  let ?G = "match_group IB n cs R"
  let ?I = "\<lambda>s :: block_state. indices_batch s = IB \<and> length (smem s) = 1024 \<and>
      length (table s) = NW * S"
  let ?val = "\<lambda>s :: block_state. table s ! (nat R * S + F)"
  have I0: "?I s1" using len IB(1) by simp
  have I: "?I (?step s t)" if "t \<in> set ?ts" "?I s" for s t
  proof (cases t)
    case (Pair tx ty)
    with that(1) have t: "tx < 32" "ty < 32" by (simp_all add: set_block_threads)
    from lead_accumulate_inv [OF S t(2,1), of s n pad bx cs] that(2)
    show ?thesis by (simp add: Pair)
  qed
  have "?I s2" unfolding s2_def by (rule foldl_invariant [where P = ?I]) (use I I0 in auto)
  then show "indices_batch s2 = IB" "length (smem s2) = 1024" "length (table s2) = NW * S"
    by auto
  have tab: "?val (?step s (tx, ty)) =
      (if leads IB n pad cs ty \<and> IB ! (cs + ty) = R \<and> tx + bx * 32 = F
       then ?val s + (smem s ! (32 * ty + tx) + (\<Sum>l \<in> ?G - {ty}. smem s ! (tx + 32 * l)))
       else ?val s)"
    if "(tx, ty) \<in> set ?ts" "?I s" for tx ty s
  proof -
    from that(1) have t: "tx < 32" "ty < 32" by (simp_all add: set_block_threads)
    from that(2) have s: "length (smem s) = 1024" "length (table s) = NW * S"
      "\<forall>i<n. 0 \<le> indices_batch s ! i \<and> indices_batch s ! i < int NW"
      "indices_batch s = IB" using IB(2) by auto
    show ?thesis
      using lead_table_nth [OF S t(2,1) s(1,2,3) R, of pad bx cs] unfolding s(4) .
  qed
  show "?val s2 = ?val s1 +
      (if bx = F div 32 \<and> R \<noteq> pad then \<Sum>l \<in> ?G. grad ! ((cs + l) * S + F) else 0)"
  proof (cases "bx = F div 32 \<and> R \<noteq> pad \<and> ?G \<noteq> {}")
    case False
    have "?I s2 \<and> ?val s2 = ?val s1" unfolding s2_def
    proof (rule foldl_all_miss [where I = ?I and val = ?val, OF _ I0])
      fix t s assume t: "t \<in> set ?ts" and s: "?I s"
      obtain tx ty where p: "t = (tx, ty)" by (cases t)
      with t have tx: "tx < 32" "ty < 32" by (simp_all add: set_block_threads)
      have "\<not> (leads IB n pad cs ty \<and> IB ! (cs + ty) = R \<and> tx + bx * 32 = F)"
      proof
        assume h: "leads IB n pad cs ty \<and> IB ! (cs + ty) = R \<and> tx + bx * 32 = F"
        with leads_least [of IB n pad cs ty] tx(2) have "ty \<in> ?G" "R \<noteq> pad" by auto
        moreover from h lane_of_feature [of tx bx F] tx(1) have "bx = F div 32" by simp
        ultimately show False using False by auto
      qed
      with tab [OF t [unfolded p] s] have "?val (?step s t) = ?val s" by (simp add: p)
      with I [OF t s] show "?I (?step s t) \<and> ?val (?step s t) = ?val s" by simp
    qed
    moreover have "(if bx = F div 32 \<and> R \<noteq> pad
        then \<Sum>l \<in> ?G. grad ! ((cs + l) * S + F) else 0) = 0"
      using False by auto
    ultimately show ?thesis by simp
  next
    case True
    define ty0 where "ty0 = Min ?G"
    have G: "ty0 \<in> ?G" "\<And>l. l \<in> ?G \<Longrightarrow> ty0 \<le> l"
      unfolding ty0_def using True finite_match_group [of IB n cs R] by auto
    note lead0 = least_leads [OF G, of pad, OF _ conjunct1 [OF conjunct2 [OF True]]]
    have ty0: "ty0 < 32" using G(1) by (simp add: match_group_def)
    define tx0 where "tx0 = F mod 32"
    have tx0: "tx0 < 32" "tx0 + bx * 32 = F" using True by (auto simp: tx0_def)
    let ?J = "\<lambda>s :: block_state. \<forall>l \<in> ?G. smem s ! (32 * l + tx0) = grad ! ((cs + l) * S + F)"
    have only: "tx = tx0 \<and> ty = ty0"
      if "leads IB n pad cs ty" "IB ! (cs + ty) = R" "tx = tx0" "ty < 32" for tx ty
    proof -
      from leads_least(1,2) [OF that(1,4)] that(2) G have "ty \<le> ty0" "ty0 \<le> ty" by auto
      with that(3) show ?thesis by simp
    qed
    have "?val (foldl ?step s1 ?ts) = ?val s1 + (\<Sum>l \<in> ?G. grad ! ((cs + l) * S + F))"
    proof (rule foldl_one_hit [where u = "(tx0, ty0)" and I = ?I and J = ?J and val = ?val
          and h = "\<lambda>v. v + (\<Sum>l \<in> ?G. grad ! ((cs + l) * S + F))" and step = ?step])
      show "distinct ?ts" by (rule distinct_block_threads)
      show u: "(tx0, ty0) \<in> set ?ts" using tx0 ty0 by (simp add: set_block_threads)
      show "?I s1" by (rule I0)
      show "?J s1" using staged True by (simp add: tx0_def)
      show "?I (?step s t)" if "t \<in> set ?ts" "?I s" for t s by (rule I [OF that])
      show "?val (?step s (tx0, ty0)) = ?val s + (\<Sum>l \<in> ?G. grad ! ((cs + l) * S + F))"
        if "?I s" "?J s" for s
      proof -
        have "(\<Sum>l \<in> ?G. grad ! ((cs + l) * S + F)) = (\<Sum>l \<in> ?G. smem s ! (32 * l + tx0))"
          by (rule sum.cong) (use that(2) in auto)
        also have "\<dots> = smem s ! (32 * ty0 + tx0) + (\<Sum>l \<in> ?G - {ty0}. smem s ! (32 * l + tx0))"
          by (rule sum.remove [OF finite_match_group G(1)])
        also have "(\<Sum>l \<in> ?G - {ty0}. smem s ! (32 * l + tx0)) =
            (\<Sum>l \<in> ?G - {ty0}. smem s ! (tx0 + 32 * l))"
          by (simp add: add.commute)
        finally show ?thesis
          using tab [OF u that(1)] lead0 tx0(2) by simp
      qed
      show "?val (?step s t) = ?val s" if "t \<in> set ?ts" "t \<noteq> (tx0, ty0)" "?I s" for t s
      proof -
        obtain tx ty where p: "t = (tx, ty)" by (cases t)
        with that(1) have tx: "tx < 32" "ty < 32" by (simp_all add: set_block_threads)
        have "\<not> (leads IB n pad cs ty \<and> IB ! (cs + ty) = R \<and> tx + bx * 32 = F)"
        proof
          assume h: "leads IB n pad cs ty \<and> IB ! (cs + ty) = R \<and> tx + bx * 32 = F"
          with lane_of_feature(1) [of tx bx F] tx(1) have "tx = tx0" by (simp add: tx0_def)
          with only [of ty tx] h tx(2) that(2) p show False by simp
        qed
        with tab [OF that(1) [unfolded p] that(3)] show ?thesis by (simp add: p)
      qed
      show "?J (?step s t)" if "t \<in> set ?ts" "t \<noteq> (tx0, ty0)" "?I s" "?J s" for t s
      proof
        fix l assume l: "l \<in> ?G"
        obtain tx ty where p: "t = (tx, ty)" by (cases t)
        with that(1) have tx: "tx < 32" "ty < 32" by (simp_all add: set_block_threads)
        have "\<not> (leads (indices_batch s) n pad cs ty \<and> 32 * l + tx0 = 32 * ty + tx)"
        proof
          assume h: "leads (indices_batch s) n pad cs ty \<and> 32 * l + tx0 = 32 * ty + tx"
          with slot_unique [of l tx0 ty tx] tx0(1) tx(1) have e: "l = ty" "tx = tx0" by auto
          with l have "IB ! (cs + ty) = R" by (simp add: match_group_def)
          with only [of ty tx] h e(2) tx(2) that(2,3) p show False by simp
        qed
        from lead_smem_nth [OF S tx(2,1) _ this, of bx] that(3,4) l
        show "smem (?step s t) ! (32 * l + tx0) = grad ! ((cs + l) * S + F)"
          by (simp add: p)
      qed
    qed
    with True show ?thesis by (simp add: s2_def)
  qed
qed

lemma group_sum:
  fixes g :: "nat \<Rightarrow> real"
  shows "(\<Sum>l \<in> match_group IB n cs R. g (cs + l)) =
    sum_list (map g (filter (\<lambda>i. IB ! i = R) [cs..<min (cs + 32) n]))"
proof -
  have "sum_list (map g (filter (\<lambda>i. IB ! i = R) [cs..<min (cs + 32) n])) =
      sum g (set (filter (\<lambda>i. IB ! i = R) [cs..<min (cs + 32) n]))"
    by (rule sum_list_distinct_conv_sum_set) simp
  also have "set (filter (\<lambda>i. IB ! i = R) [cs..<min (cs + 32) n]) =
      (\<lambda>l. cs + l) ` match_group IB n cs R"
  proof (intro set_eqI iffI)
    fix i assume "i \<in> set (filter (\<lambda>i. IB ! i = R) [cs..<min (cs + 32) n])"
    then have "i - cs \<in> match_group IB n cs R" "i = cs + (i - cs)"
      by (auto simp: match_group_def)
    then show "i \<in> (\<lambda>l. cs + l) ` match_group IB n cs R" by (rule rev_image_eqI)
  qed (auto simp: match_group_def)
  also have "sum g ((\<lambda>l. cs + l) ` match_group IB n cs R) =
      (\<Sum>l \<in> match_group IB n cs R. g (cs + l))"
    by (subst sum.reindex) (auto simp: inj_on_def)
  finally show ?thesis by simp
qed

lemma sum_list_if_const:
  fixes g :: "'a \<Rightarrow> real"
  shows "sum_list (map (\<lambda>i. if c then g i else 0) xs) = (if c then sum_list (map g xs) else 0)"
  by (cases c) simp_all

lemma chunk_step:
  fixes st :: block_state and n cs bx :: nat and pad :: int and grad :: "real list"
  assumes S: "S < 2 ^ 31" and len: "length (smem st) = 1024" "length (table st) = NW * S"
    and IB: "indices_batch st = IB" "\<forall>i<n. 0 \<le> IB ! i \<and> IB ! i < int NW"
    and R: "0 \<le> R" "R < int NW" "F < S"
  defines "st' \<equiv>
      foldl (\<lambda>st t. lead_accumulate n (int S) pad bx (32, 32) 0 cs t st)
        (foldl (\<lambda>st t. stage_grad grad n (int S) pad bx (32, 32) 0 cs t st) st
           (block_threads (32, 32)))
        (block_threads (32, 32))"
  shows "indices_batch st' = IB \<and> length (smem st') = 1024 \<and> length (table st') = NW * S"
    and "table st' ! (nat R * S + F) = table st ! (nat R * S + F) +
       sum_list (map (\<lambda>i. if bx = F div 32 \<and> R \<noteq> pad then grad ! (i * S + F) else 0)
         (filter (\<lambda>i. IB ! i = R) [cs..<min (cs + 32) n]))"
proof -
  define s1 where "s1 = foldl (\<lambda>st t. stage_grad grad n (int S) pad bx (32, 32) 0 cs t st) st
      (block_threads (32, 32))"
  note A = stage_phase [OF S len(1), where grad = grad and n = n and pad = pad and bx = bx and cs = cs, folded s1_def]
  have staged: "smem s1 ! (32 * l + F mod 32) = grad ! ((cs + l) * S + F)"
    if "l \<in> match_group IB n cs R" "bx = F div 32" "R \<noteq> pad" for l
  proof -
    from that(1) have l: "l < 32" "cs + l < n" "IB ! (cs + l) = R" by (auto simp: match_group_def)
    have f: "F mod 32 + bx * 32 = F" using that(2) by simp
    from A(4) [of "F mod 32" l] l that(3) R(3) IB(1) show ?thesis by (simp add: f)
  qed
  note B = lead_phase [where n = n and cs = cs and bx = bx and pad = pad and grad = grad
      and IB = IB and R = R and F = F,
    OF S A(3) _ _ IB(2) R staged, folded st'_def [unfolded s1_def [symmetric]]]
  have pre: "length (table s1) = NW * S" "indices_batch s1 = IB" using A(1,2) len(2) IB(1) by auto
  from B(1,2,3) [OF pre]
  show "indices_batch st' = IB \<and> length (smem st') = 1024 \<and> length (table st') = NW * S"
    by simp
  have "sum_list (map (\<lambda>i. if bx = F div 32 \<and> R \<noteq> pad then grad ! (i * S + F) else 0)
         (filter (\<lambda>i. IB ! i = R) [cs..<min (cs + 32) n])) =
      (if bx = F div 32 \<and> R \<noteq> pad
       then \<Sum>l \<in> match_group IB n cs R. grad ! ((cs + l) * S + F) else 0)"
    unfolding sum_list_if_const group_sum [of "\<lambda>i. grad ! (i * S + F)" cs IB n R] ..
  with B(4) [OF pre] A(2)
  show "table st' ! (nat R * S + F) = table st ! (nat R * S + F) +
       sum_list (map (\<lambda>i. if bx = F div 32 \<and> R \<noteq> pad then grad ! (i * S + F) else 0)
         (filter (\<lambda>i. IB ! i = R) [cs..<min (cs + 32) n]))"
    by simp
qed

lemma for_loop_accumulate:
  fixes val :: "'s \<Rightarrow> real"
  assumes "0 < B"
    and "\<And>i s. i < n \<Longrightarrow> I s \<Longrightarrow>
      I (body i s) \<and> val (body i s) = val s + sum_list (map g (filter P [i..<min (i + B) n]))"
    and "I s0"
  shows "I (for_loop i0 n B body s0) \<and>
    val (for_loop i0 n B body s0) = val s0 + sum_list (map g (filter P [i0..<n]))"
  using assms(3)
proof (induction "n - i0" arbitrary: i0 s0 rule: less_induct)
  case less
  show ?case
  proof (cases "i0 < n")
    case False
    then show ?thesis using less.prems by (subst (1 2) for_loop.simps) simp
  next
    case True
    then have lt: "n - (i0 + B) < n - i0" using assms(1) by arith
    note b = assms(2) [OF True less.prems]
    note ih = less.hyps [OF lt conjunct1 [OF b]]
    have split: "[i0..<n] = [i0..<min (i0 + B) n] @ [i0 + B..<n]"
    proof (cases "i0 + B \<le> n")
      case True
      then show ?thesis using upt_add_eq_append [of i0 "i0 + B" "n - (i0 + B)"] by (simp add: min_def)
    next
      case False
      then show ?thesis by (simp add: min_def)
    qed
    have unroll: "for_loop i0 n B body s0 = for_loop (i0 + B) n B body (body i0 s0)"
      using True assms(1) by (subst for_loop.simps) simp
    show ?thesis unfolding unroll using ih b by (subst split) simp
  qed
qed

lemma load_phase:
  fixes s0 :: block_state and n :: nat and indices :: "int list"
  assumes "length (indices_batch s0) = 1024" "n \<le> 1024"
  defines "s1 \<equiv> foldl (\<lambda>st t. load_index indices n (32, 32) 0 t st) s0 (block_threads (32, 32))"
  shows "smem s1 = smem s0" "table s1 = table s0"
    and "\<And>i. i < n \<Longrightarrow> indices_batch s1 ! i = int32 (indices ! i)"
proof -
  let ?step = "\<lambda>st t. load_index indices n (32, 32) 0 t st"
  let ?I = "\<lambda>s :: block_state. smem s = smem s0 \<and> table s = table s0 \<and>
      length (indices_batch s) = 1024"
  have I: "?I (?step s t)" if "?I s" for s t
    using that by (cases t) (simp add: load_index_def Let_def)
  have "?I s1" unfolding s1_def
    by (rule foldl_invariant [where P = ?I]) (use I assms(1) in auto)
  then show "smem s1 = smem s0" "table s1 = table s0" by auto
  fix i assume i: "i < n"
  then have i': "i < 1024" using assms(2) by simp
  show "indices_batch s1 ! i = int32 (indices ! i)" unfolding s1_def
  proof (rule foldl_one_hit [where u = "(i mod 32, i div 32)" and I = ?I and J = "\<lambda>s. True"
        and val = "\<lambda>s. indices_batch s ! i" and h = "\<lambda>v. int32 (indices ! i)" and step = ?step])
    show "distinct (block_threads (32, 32))" by (rule distinct_block_threads)
    show "(i mod 32, i div 32) \<in> set (block_threads (32, 32))"
      using i' by (simp add: set_block_threads)
    show "?I s0" using assms(1) by simp
    show "indices_batch (?step s (i mod 32, i div 32)) ! i = int32 (indices ! i)" if "?I s" for s
      using that i i' by (simp add: load_index_def Let_def)
    show "indices_batch (?step s u) ! i = indices_batch s ! i"
      if "u \<in> set (block_threads (32, 32))" "u \<noteq> (i mod 32, i div 32)" "?I s" for u s
    proof (cases u)
      case (Pair tx ty)
      with that(1) have "tx < 32" by (simp add: set_block_threads)
      with that(2) Pair have "tx + ty * 32 \<noteq> i" by auto
      then show ?thesis by (simp add: Pair load_index_def Let_def)
    qed
  qed (use I in auto)
qed

lemma batch_loop_single:
  assumes "n \<le> 1024"
  shows "for_loop 0 n 1024 body st = (if 0 < n then body 0 st else st)"
proof -
  have "for_loop 1024 n 1024 body s = s" for s
    using assms by (subst for_loop.simps) simp
  then show ?thesis by (subst for_loop.simps) simp
qed

lemma feature_block_element:
  fixes st :: block_state and grad :: "real list" and indices :: "int list" and pad :: int
    and bx n :: nat
  assumes S: "S < 2 ^ 31" and n: "n \<le> 1024"
    and len: "length (smem st) = 1024" "length (indices_batch st) = 1024"
      "length (table st) = NW * S"
    and ind: "\<forall>i<n. 0 \<le> indices ! i \<and> indices ! i < int NW" "int NW < 2 ^ 31"
    and R: "0 \<le> R" "R < int NW" "F < S"
  defines "st' \<equiv> feature_block indices grad n (int S) pad bx (32, 32) st"
  shows "length (table st') = NW * S"
    and "table st' ! (nat R * S + F) = table st ! (nat R * S + F) +
        (if bx = F div 32 \<and> R \<noteq> pad
         then sum_list (map (\<lambda>i. grad ! (i * S + F)) (filter (\<lambda>i. indices ! i = R) [0..<n]))
         else 0)"
proof -
  define s1 where "s1 = foldl (\<lambda>st t. load_index indices n (32, 32) 0 t st) st
      (block_threads (32, 32))"
  define IB where "IB = indices_batch s1"
  define chunk where "chunk = (\<lambda>chunk_start st.
      foldl (\<lambda>st t. lead_accumulate n (int S) pad bx (32, 32) 0 chunk_start t st)
        (foldl (\<lambda>st t. stage_grad grad n (int S) pad bx (32, 32) 0 chunk_start t st) st
           (block_threads (32, 32)))
        (block_threads (32, 32)))"
  define c where "c \<longleftrightarrow> bx = F div 32 \<and> R \<noteq> pad"
  let ?I = "\<lambda>s :: block_state. indices_batch s = IB \<and> length (smem s) = 1024 \<and>
      length (table s) = NW * S"
  let ?val = "\<lambda>s :: block_state. table s ! (nat R * S + F)"
  let ?g = "\<lambda>i. if c then grad ! (i * S + F) else 0"
  note L = load_phase [OF len(2) n, where indices = indices, folded s1_def]
  have IB: "IB ! i = indices ! i" if "i < n" for i
  proof -
    from ind that have "0 \<le> indices ! i" "indices ! i < 2 ^ 31" by auto
    then have "int32 (indices ! i) = indices ! i" by (intro int32_id) auto
    with L(3) [OF that] show ?thesis by (simp add: IB_def)
  qed
  then have range: "\<forall>i<n. 0 \<le> IB ! i \<and> IB ! i < int NW" using ind(1) by simp
  have I1: "?I s1" using L(1,2) len by (simp add: IB_def)
  have body: "?I (chunk cs s) \<and>
      ?val (chunk cs s) = ?val s + sum_list (map ?g (filter (\<lambda>i. IB ! i = R) [cs..<min (cs + 32) n]))"
    if "?I s" for cs s
  proof -
    from that have s: "length (smem s) = 1024" "length (table s) = NW * S" "indices_batch s = IB"
      by auto
    from chunk_step [OF S s range R, where grad = grad and pad = pad and bx = bx and cs = cs]
    show ?thesis unfolding chunk_def c_def by simp
  qed
  have loop: "?I (for_loop 0 n 32 chunk s1) \<and>
      ?val (for_loop 0 n 32 chunk s1) = ?val s1 + sum_list (map ?g (filter (\<lambda>i. IB ! i = R) [0..<n]))"
    by (rule for_loop_accumulate [where I = ?I and val = ?val]) (use body I1 in auto)
  have "filter (\<lambda>i. IB ! i = R) [0..<n] = filter (\<lambda>i. indices ! i = R) [0..<n]"
    by (rule filter_cong) (use IB in auto)
  with loop have loop': "?I (for_loop 0 n 32 chunk s1)"
    "?val (for_loop 0 n 32 chunk s1) = ?val s1 +
      (if c then sum_list (map (\<lambda>i. grad ! (i * S + F)) (filter (\<lambda>i. indices ! i = R) [0..<n]))
       else 0)"
    by (simp_all add: sum_list_if_const)
  have st': "st' = (if 0 < n then for_loop 0 n 32 chunk s1 else st)"
    unfolding st'_def feature_block_def fst_conv snd_conv
    by (simp add: batch_loop_single [OF n] chunk_def s1_def)
  show "length (table st') = NW * S" using loop'(1) len(3) by (simp add: st')
  show "table st' ! (nat R * S + F) = table st ! (nat R * S + F) +
        (if bx = F div 32 \<and> R \<noteq> pad
         then sum_list (map (\<lambda>i. grad ! (i * S + F)) (filter (\<lambda>i. indices ! i = R) [0..<n]))
         else 0)"
  proof (cases "0 < n")
    case True
    then show ?thesis using loop'(2) L(2) unfolding st' c_def by simp
  next
    case False
    then show ?thesis unfolding st' by simp
  qed
qed

lemma feature_kernel_element:
  fixes grad gw :: "real list" and indices :: "int list" and pad :: int and n :: nat
  assumes S: "S < 2 ^ 31" and n: "n \<le> 1024" and gw: "length gw = NW * S"
    and ind: "\<forall>i<n. 0 \<le> indices ! i \<and> indices ! i < int NW" "int NW < 2 ^ 31"
    and R: "0 \<le> R" "R < int NW" "F < S"
  shows "fst (embedding_backward_feature_kernel (THCCeilDiv S 32) (32, 32) (1024, 1024) sh
            indices grad gw n (int S) pad) ! (nat R * S + F) =
         gw ! (nat R * S + F) +
         (if R \<noteq> pad
          then sum_list (map (\<lambda>i. grad ! (i * S + F)) (filter (\<lambda>i. indices ! i = R) [0..<n]))
          else 0)"
proof -
  let ?rs = "sum_list (map (\<lambda>i. grad ! (i * S + F)) (filter (\<lambda>i. indices ! i = R) [0..<n]))"
  let ?init = "\<lambda>(gl :: real list \<times> nat list) bx.
      \<lparr>smem = map (fst (sh bx)) [0..<1024], indices_batch = map (snd (sh bx)) [0..<1024],
       subscripts = snd gl, table = fst gl\<rparr>"
  let ?step = "\<lambda>gl bx. let st = feature_block indices grad n (int S) pad bx (32, 32) (?init gl bx)
      in (table st, subscripts st)"
  let ?I = "\<lambda>gl :: real list \<times> nat list. length (fst gl) = NW * S"
  let ?val = "\<lambda>gl :: real list \<times> nat list. fst gl ! (nat R * S + F)"
  have blk: "?I (?step gl bx)"
    "?val (?step gl bx) = ?val gl + (if bx = F div 32 \<and> R \<noteq> pad then ?rs else 0)"
    if "?I gl" for gl bx
    using feature_block_element [OF S n _ _ _ ind R, where st = "?init gl bx" and grad = grad
        and pad = pad and bx = bx] that
    by (simp_all add: Let_def)
  have "?val (foldl ?step (gw, []) [0..<THCCeilDiv S 32]) =
      ?val (gw, []) + (if R \<noteq> pad then ?rs else 0)"
  proof (rule foldl_one_hit [where u = "F div 32" and I = ?I and J = "\<lambda>s. True" and val = ?val
        and h = "\<lambda>v. v + (if R \<noteq> pad then ?rs else 0)" and step = ?step])
    show "distinct [0..<THCCeilDiv S 32]" by simp
    show "F div 32 \<in> set [0..<THCCeilDiv S 32]" using ceil_div_covers [of 32 F S] R(3) by simp
    show "?I (gw, [])" using gw by simp
    show "?I (?step s t)" if "?I s" for s t by (rule blk(1) [OF that])
    show "?val (?step s t) = ?val s" if "t \<noteq> F div 32" "?I s" for s t
      using blk(2) [OF that(2), of t] that(1) by simp
    show "?val (?step s (F div 32)) = ?val s + (if R \<noteq> pad then ?rs else 0)" if "?I s" for s
      using blk(2) [OF that, of "F div 32"] by simp
  qed simp_all
  then show ?thesis by (simp add: embedding_backward_feature_kernel_def)
qed

text \<open>
  The Direct kernel narrows the indices, the stride and \<open>padding_idx\<close> to \<^verbatim>\<open>int\<close> (lines 48,
  39 and 32) and computes the row offset \<^verbatim>\<open>dst_row*stride\<close> in 64 bits (line 93): the number of
  elements of the table is not bounded.
\<close>

lemma direct_path_element_wide:
  assumes "list_all (\<lambda>i. 0 \<le> i \<and> i < int NW) indices" "int NW < 2 ^ 31" "S < 2 ^ 31"
    and "- (2 ^ 31) \<le> pad" "pad < 2 ^ 31" "length indices \<le> 768"
    and "0 \<le> r" "r < int NW" "f < S"
  shows "fst (direct_path shared grad indices NW S pad) ! (nat r * S + f) =
           (if r = pad then 0 else row_sum grad indices S r f)"
proof -
  let ?n = "length indices"
  have pad: "int32 pad = pad" using assms(4,5) by (rule int32_id)
  have n: "nat (int32 (int ?n)) = ?n"
  proof -
    have "int32 (int ?n) = int ?n" using assms(6) by (intro int32_id) auto
    then show ?thesis by simp
  qed
  have ind: "\<forall>i<?n. 0 \<le> indices ! i \<and> indices ! i < int NW"
    using in_range_nth [OF assms(1)] by simp
  have "nat r < NW" using assms(7,8) by simp
  then have "Suc (nat r) * S \<le> NW * S" by (intro mult_le_mono1) simp
  then have a: "nat r * S + f < NW * S" using assms(9) by simp
  have n': "?n \<le> 1024" using assms(6) by simp
  from feature_kernel_element [OF assms(3) n' _ ind assms(2,7,8,9),
      where gw = "replicate (NW * S) 0" and grad = grad and pad = pad and sh = shared] a
  show ?thesis
    by (simp add: direct_path_def WARP_SIZE_def BLOCKDIMY_def n pad row_sum_def)
qed

lemma direct_path_element:
  assumes "backward_input_ok grad indices NW S pad" "length indices \<le> 768"
    and "0 \<le> r" "r < int NW" "f < S"
  shows "fst (direct_path shared grad indices NW S pad) ! (nat r * S + f) =
           (if r = pad then 0 else row_sum grad indices S r f)"
proof -
  from assms(1) have ok: "list_all (\<lambda>i. 0 \<le> i \<and> i < int NW) indices"
      "int NW * int S < 2 ^ 31" "- (2 ^ 31) \<le> pad" "pad < 2 ^ 31"
    by (auto simp: backward_input_ok_def)
  have NW: "0 < NW" using assms(3,4) by simp
  have S0: "0 < S" using assms(5) by simp
  have "int S * 1 \<le> int S * int NW" using NW by (intro mult_left_mono) auto
  then have S: "S < 2 ^ 31" using ok(2) by (simp add: mult.commute)
  have "int NW * 1 \<le> int NW * int S" using S0 by (intro mult_left_mono) auto
  then have NW': "int NW < 2 ^ 31" using ok(2) by simp
  show ?thesis
    by (rule direct_path_element_wide [OF ok(1) NW' S ok(3,4) assms(2,3,4,5)])
qed

subsection \<open>Both accumulators while the table is within 32 bits\<close>

text \<open>
  Over exact arithmetic, for inputs within the table and within 32 bits
  (\<open>backward_input_ok\<close>) and a \<^verbatim>\<open>sort_by_key\<close> that meets its contract, both kernels leave in
  every element of a row other than \<open>padding_idx\<close> the sum of the gradient rows of the
  positions whose index is the row (the Sort-Grouped kernel divided by the number of
  occurrences when frequency scaling is on), and in every element of row \<open>padding_idx\<close>
  zero: the Direct kernel on every launch the dispatcher makes of it (at most 768 indices).
\<close>

lemma accumulators_within_int32:
  assumes "backward_input_ok grad indices NW S pad"
    and "sort_by_key_contract indices (map int [0..<length indices])
           (sort_by_key indices (map int [0..<length indices]))"
    and "0 \<le> r" "r < int NW" "f < S"
  shows "(length indices \<le> 768 \<longrightarrow>
            fst (direct_path shared grad indices NW S pad) ! (nat r * S + f) =
              (if r = pad then 0 else row_sum grad indices S r f)) \<and>
         gw_data (sort_grouped_path sort_by_key grad indices NW S pad scale_grad_by_freq) !
             (nat r * S + f) =
           (if r = pad then 0
            else row_sum grad indices S r f /
                   (if scale_grad_by_freq then real (count_list indices r) else 1))"
  using direct_path_element [OF assms(1) _ assms(3,4,5), of shared]
    sort_grouped_path_element(1) [where sort_by_key = sort_by_key and scale = scale_grad_by_freq,
      OF assms(1,2,3,4,5)]
  by simp

subsection \<open>The row offset of the Sort-Grouped kernel beyond 32 bits\<close>

text \<open>
  The kernel reads a sorted index only in its comparisons (lines 124-125, 158) and in
  \<^verbatim>\<open>weight_row\<close> (line 128), the product with the stride narrowed to \<^verbatim>\<open>int\<close>. For a single
  index, two rows with the same narrowed offset are therefore the same row to the kernel.
\<close>

lemma single_index_alias:
  assumes "int32 (int32 R * int S) = int32 (int32 R' * int S)" "R \<noteq> pad" "R' \<noteq> pad'"
  shows "embedding_backward_kernel gd bd [R] oi g st c 1 (int S) pad =
         embedding_backward_kernel gd bd [R'] oi g st c 1 (int S) pad'"
proof -
  have member: "run_member [R] oi g c (int S) sf 0 s = run_member [R'] oi g c (int S) sf 0 s"
    for sf s
    using assms(1) by (simp add: run_member_def)
  have loop: "run_loop [R] oi g c (Suc 0) (int S) sf 0 s =
      run_loop [R'] oi g c (Suc 0) (int S) sf 0 s" for sf s
    by (subst (1 2) run_loop.simps) (simp add: Let_def member)
  have "embedding_backward_kernel_thread [R] oi g c (Suc 0) (int S) pad bd bt s =
      embedding_backward_kernel_thread [R'] oi g c (Suc 0) (int S) pad' bd bt s" for bt s
  proof (cases "fst (fst bt) * 4 + snd (snd bt) = 0")
    case True
    then show ?thesis
      using assms(2,3) by (simp add: embedding_backward_kernel_thread_def Let_def loop)
  next
    case False
    then have e: "(fst (fst bt) * 4 + snd (snd bt) < Suc 0) = False" by simp
    show ?thesis
      unfolding embedding_backward_kernel_thread_def Let_def e by simp
  qed
  then show ?thesis by (simp add: embedding_backward_kernel_def)
qed

lemma wrapped_offset: "int32 (int32 4194304 * int 1024) = int32 (int32 0 * int 1024)"
  by (simp add: int32_def signed_take_bit_eq_take_bit_minus take_bit_eq_mod bit_iff_odd)

lemma single_sort: "stable_sort_by_key [R] (map int [0..<length [R]]) = ([R], [0])"
  by (simp add: stable_sort_by_key_def)

lemma single_count: "frequency_counts [R] = [1]"
  by (simp add: frequency_counts_def)

lemma wrapped_path:
  assumes "pad \<noteq> 4194304" "- (2 ^ 31) \<le> pad" "pad < 2 ^ 31"
  shows "sort_grouped_path stable_sort_by_key g [4194304] 4194305 1024 pad True =
         embedding_backward_kernel (1, 8) (32, 4) [0] [0] g
           \<lparr>gw_data = replicate (4194305 * 1024) 0, gw_writes = []\<rparr> (Some [1]) 1 (int 1024) (-1)"
proof -
  have p: "int32 pad = pad" using assms(2,3) by (rule int32_id)
  have "sort_grouped_path stable_sort_by_key g [4194304] 4194305 1024 pad True =
      embedding_backward_kernel (1, 8) (32, 4) [4194304] [0] g
        \<lparr>gw_data = replicate (4194305 * 1024) 0, gw_writes = []\<rparr> (Some [1]) 1 (int 1024) pad"
    unfolding sort_grouped_path_def Let_def single_sort single_count fst_conv snd_conv p
    by (simp add: THCCeilDiv_def)
  also have "\<dots> = embedding_backward_kernel (1, 8) (32, 4) [0] [0] g
        \<lparr>gw_data = replicate (4194305 * 1024) 0, gw_writes = []\<rparr> (Some [1]) 1 (int 1024) (-1)"
    by (rule single_index_alias [OF wrapped_offset]) (use assms(1) in auto)
  finally show ?thesis .
qed

lemma wrapped_path_elements:
  assumes "pad \<noteq> 4194304" "- (2 ^ 31) \<le> pad" "pad < 2 ^ 31" "f < 1024"
  shows "gw_data (sort_grouped_path stable_sort_by_key g [4194304] 4194305 1024 pad True) !
           (nat 0 * 1024 + f) = g ! f"
    and "gw_data (sort_grouped_path stable_sort_by_key g [4194304] 4194305 1024 pad True) !
           (nat 4194304 * 1024 + f) = 0"
proof -
  let ?st = "\<lparr>gw_data = replicate (4194305 * 1024) (0::real), gw_writes = []\<rparr>"
  have g: "(1, 8) = (THCCeilDiv 1 4, THCCeilDiv 1024 128)" by (simp add: THCCeilDiv_def)
  have in1: "\<forall>k<1. 0 \<le> [0::int] ! k \<and> [0::int] ! k < int 1" by simp
  have len: "1 * 1024 \<le> length (gw_data ?st)" by simp
  note acc = kernel_row_accumulated(1) [where input = "[0]" and n = 1 and NW = 1 and S = 1024
      and indices = "[0]" and st = ?st and f = f and r = 0 and pad = "-1" and grad_output = g
      and count' = "Some [1]", OF _ _ in1 in1 _ _ len assms(4), folded g]
  have "gw_data (embedding_backward_kernel (1, 8) (32, 4) [0] [0] g ?st (Some [1]) 1 (int 1024) (-1)) !
      (nat 0 * 1024 + f) = g ! f"
    using acc assms(4) by (simp add: position_scale_def)
  then show "gw_data (sort_grouped_path stable_sort_by_key g [4194304] 4194305 1024 pad True) !
      (nat 0 * 1024 + f) = g ! f"
    unfolding wrapped_path [OF assms(1,2,3)] .
  note un = kernel_row_unchanged [where input = "[0]" and n = 1 and NW = 1 and S = 1024
      and r = 4194304 and f = f and pad = "-1" and gd = "(1, 8)" and indices = "[0]"
      and grad_output = g and st = ?st and count' = "Some [1]", OF _ _ in1 _ _ assms(4)]
  have "gw_data (embedding_backward_kernel (1, 8) (32, 4) [0] [0] g ?st (Some [1]) 1 (int 1024) (-1)) !
      (nat 4194304 * 1024 + f) = 0"
    using un assms(4) by simp
  then show "gw_data (sort_grouped_path stable_sort_by_key g [4194304] 4194305 1024 pad True) !
      (nat 4194304 * 1024 + f) = 0"
    unfolding wrapped_path [OF assms(1,2,3)] .
qed

lemma single_index_row_sum:
  "row_sum (replicate 1024 7) [4194304] 1024 r 0 = (if r = 4194304 then 7 else 0)"
  by (simp add: row_sum_def)

lemma single_index_direct:
  assumes "- (2 ^ 31) \<le> pad" "pad < 2 ^ 31" "0 \<le> r" "r < 4194305"
  shows "fst (direct_path shared (replicate 1024 7) [4194304] 4194305 1024 pad) ! (nat r * 1024 + 0) =
           (if r = pad then 0 else if r = 4194304 then 7 else 0)"
  using direct_path_element_wide [where indices = "[4194304]" and NW = 4194305 and S = 1024
      and pad = pad and r = r and f = 0 and shared = shared and grad = "replicate 1024 7"] assms
  by (simp add: single_index_row_sum)

lemma single_index_entry:
  "embedding_backward_cuda stable_sort_by_key shared
     \<lparr>scalar_type = kFloat, contiguous = True, device_of = CUDA 0, sizes = [1, 1024],
      elems = replicate 1024 7\<rparr>
     \<lparr>scalar_type = kLong, contiguous = True, device_of = CUDA 0, sizes = [1],
      elems = [4194304]\<rparr>
     4194305 pad True =
   Inr \<lparr>scalar_type = kFloat, contiguous = True, device_of = CUDA 0, sizes = [4194305, 1024],
        elems = gw_data (sort_grouped_path stable_sort_by_key (replicate 1024 7) [4194304]
                           4194305 1024 pad True)\<rparr>"
  by (simp add: embedding_backward_cuda_def embedding_backward_checks_def checkScalarType_def
      checkContiguous_def checkSameGPU_def select_accumulator_def)

text \<open>
  Claim C1 at one index, 4194304, into a table of 4194305 rows of 1024 columns, with a
  gradient row of sevens, \<open>padding_idx = -1\<close> and frequency scaling on (so the Sort-Grouped
  kernel runs; the index occurs once). The claim has 7 in row 4194304 and 0 in row 0. The
  Sort-Grouped kernel narrows the row offset \<open>4194304 * 1024 = 2\<^sup>3\<^sup>2\<close> to \<^verbatim>\<open>int\<close> (line 128),
  which is 0: the table that \<^verbatim>\<open>embedding_backward_cuda\<close> returns has 0 in row 4194304 and 7 in
  row 0. The Direct kernel, which computes the offset in 64 bits (line 93), has 7 in row
  4194304 for the same index list.
\<close>

theorem C1_sort_grouped_row_offset_wraps:
  "row_sum (replicate 1024 7) [4194304] 1024 4194304 0 / real (count_list [4194304 :: int] 4194304)
     = 7 \<and>
   row_sum (replicate 1024 7) [4194304] 1024 0 0 / real (count_list [4194304 :: int] 4194304)
     = 0 \<and>
   (case embedding_backward_cuda stable_sort_by_key (\<lambda>bx. (\<lambda>i. 0, \<lambda>i. 0))
           \<lparr>scalar_type = kFloat, contiguous = True, device_of = CUDA 0, sizes = [1, 1024],
            elems = replicate 1024 7\<rparr>
           \<lparr>scalar_type = kLong, contiguous = True, device_of = CUDA 0, sizes = [1],
            elems = [4194304]\<rparr>
           4194305 (- 1) True of
      Inl e \<Rightarrow> False
    | Inr t \<Rightarrow> elems t ! (nat 4194304 * 1024 + 0) = 0 \<and> elems t ! (nat 0 * 1024 + 0) = 7) \<and>
   fst (direct_path (\<lambda>bx. (\<lambda>i. 0, \<lambda>i. 0)) (replicate 1024 7) [4194304] 4194305 1024 (- 1)) !
     (nat 4194304 * 1024 + 0) = 7"
  unfolding single_index_entry sum.case
  using wrapped_path_elements [of "- 1" 0 "replicate 1024 7"]
    single_index_direct [of "- 1" 4194304 "\<lambda>bx. (\<lambda>i. 0, \<lambda>i. 0)"]
  by (simp add: single_index_row_sum)

text \<open>
  Claim C3 at the same table, index and gradient with \<open>padding_idx = 0\<close>: the index 4194304
  is not the padding index (line 125), its narrowed row offset is 0 (line 128), and the
  store of line 153 puts the gradient into row 0, the padding row: the table that
  \<^verbatim>\<open>embedding_backward_cuda\<close> returns has 7 there. The Direct kernel leaves the row zero.
\<close>

theorem C3_sort_grouped_writes_padding_row:
  "(case embedding_backward_cuda stable_sort_by_key (\<lambda>bx. (\<lambda>i. 0, \<lambda>i. 0))
           \<lparr>scalar_type = kFloat, contiguous = True, device_of = CUDA 0, sizes = [1, 1024],
            elems = replicate 1024 7\<rparr>
           \<lparr>scalar_type = kLong, contiguous = True, device_of = CUDA 0, sizes = [1],
            elems = [4194304]\<rparr>
           4194305 0 True of
      Inl e \<Rightarrow> False
    | Inr t \<Rightarrow> elems t ! (nat 0 * 1024 + 0) = 7) \<and>
   fst (direct_path (\<lambda>bx. (\<lambda>i. 0, \<lambda>i. 0)) (replicate 1024 7) [4194304] 4194305 1024 0) !
     (nat 0 * 1024 + 0) = 0"
  unfolding single_index_entry sum.case
  using wrapped_path_elements(1) [of 0 0 "replicate 1024 7"]
    single_index_direct [of 0 0 "\<lambda>bx. (\<lambda>i. 0, \<lambda>i. 0)"]
  by simp

end
